theory Spec2Isabelle
  imports Complex_Main "HOL-Library.AList"
begin

section \<open>The tic-tac-toe game adapter (bobbot/games/tictactoe.py)\<close>

text \<open>
  Players are the constants \<open>PLAYER_X = 1\<close> and \<open>PLAYER_O = 2\<close>; a cell or an active
  player that is Python's \<open>None\<close> is \<open>None\<close> of an option type. A coordinate is a pair
  of Python integers. The board is a dict whose keys are the nine coordinates
  \<open>(x, y)\<close> with \<open>x, y\<close> in \<open>range(3)\<close>: \<open>starting_state\<close> creates exactly these keys
  and \<open>make_move\<close> copies them, so the dict is a function that is read at those nine
  coordinates only. Exceptions are values of the type \<open>error\<close>.
\<close>

datatype player = PLAYER_X | PLAYER_O

datatype error =
  ValueError | AssertionError | KeyError | AttributeError | IllegalMoveError | InvalidStateError

type_synonym coord = "int \<times> int"

record GameState =
  board :: "coord \<Rightarrow> player option"
  active_player :: "player option"

definition range3 :: "int list" where
  "range3 = [0, 1, 2]"

text \<open>\<open>[(x, y) for x in range(3) for y in range(3)]\<close>, also the key order of the board dict.\<close>

definition coords :: "coord list" where
  "coords = concat (map (\<lambda>x. map (\<lambda>y. (x, y)) range3) range3)"

fun player_symbol :: "player option \<Rightarrow> string" where
  "player_symbol (Some PLAYER_X) = ''X''"
| "player_symbol (Some PLAYER_O) = ''O''"
| "player_symbol None = '' ''"

definition starting_state :: GameState where
  "starting_state = \<lparr>board = (\<lambda>c. None), active_player = Some PLAYER_X\<rparr>"

definition is_winner :: "GameState \<Rightarrow> player \<Rightarrow> bool" where
  "is_winner game_state p =
     (let row = list_ex (\<lambda>b_row. list_all (\<lambda>b_column. board game_state (b_column, b_row) = Some p) range3) range3;
          column = list_ex (\<lambda>b_column. list_all (\<lambda>b_row. board game_state (b_column, b_row) = Some p) range3) range3;
          diagonal_a = list_all (\<lambda>b. board game_state (b, b) = Some p) range3;
          diagonal_b = list_all (\<lambda>b. board game_state (b, 2 - b) = Some p) range3
      in list_ex (\<lambda>x. x) [row, column, diagonal_a, diagonal_b])"

definition is_finished :: "GameState \<Rightarrow> bool" where
  "is_finished game_state =
     (let player_won = (is_winner game_state PLAYER_X \<or> is_winner game_state PLAYER_O);
          board_full = list_all (\<lambda>c. board game_state c \<noteq> None) coords
      in player_won \<or> board_full)"

definition winner :: "GameState \<Rightarrow> error + player option" where
  "winner game_state =
     (if is_winner game_state PLAYER_X then Inr (Some PLAYER_X)
      else if is_winner game_state PLAYER_O then Inr (Some PLAYER_O)
      else if \<not> is_finished game_state then Inl ValueError
      else Inr None)"

text \<open>The first assertion, \<open>len(coord) == 2\<close>, holds of every pair.\<close>

definition is_legal_move :: "GameState \<Rightarrow> coord \<Rightarrow> error + bool" where
  "is_legal_move game_state coord =
     (if \<not> ((0 \<le> fst coord \<and> fst coord \<le> 2) \<and> (0 \<le> snd coord \<and> snd coord \<le> 2))
      then Inl AssertionError
      else Inr (\<not> is_finished game_state \<and> board game_state coord = None))"

definition make_move :: "GameState \<Rightarrow> coord \<Rightarrow> error + GameState" where
  "make_move game_state coord =
     (case is_legal_move game_state coord of
        Inl e \<Rightarrow> Inl e
      | Inr legal \<Rightarrow>
          if \<not> legal then Inl ValueError
          else
            let successor_board = (board game_state)(coord := active_player game_state);
                tentative_successor_game_state = \<lparr>board = successor_board, active_player = None\<rparr>;
                successor_active_player =
                  (if is_finished tentative_successor_game_state then None
                   else if active_player game_state = Some PLAYER_X then Some PLAYER_O
                   else Some PLAYER_X)
            in Inr \<lparr>board = successor_board, active_player = successor_active_player\<rparr>)"

text \<open>Every coordinate of \<open>coords\<close> passes the assertions of \<open>is_legal_move\<close>.\<close>

definition all_legal_moves :: "GameState \<Rightarrow> coord list" where
  "all_legal_moves game_state = filter (\<lambda>coord. is_legal_move game_state coord = Inr True) coords"

text \<open>The dict with the keys \<open>PLAYER_X\<close> and \<open>PLAYER_O\<close> is a function of the player;
  the values \<open>0\<close>, \<open>1\<close>, \<open>-1\<close> and \<open>-0.5\<close> are exact.\<close>

definition evaluate :: "GameState \<Rightarrow> player \<Rightarrow> real" where
  "evaluate game_state =
     (if \<not> is_finished game_state then (\<lambda>p. 0)
      else if is_winner game_state PLAYER_X then (\<lambda>p. case p of PLAYER_X \<Rightarrow> 1 | PLAYER_O \<Rightarrow> - 1)
      else if is_winner game_state PLAYER_O then (\<lambda>p. case p of PLAYER_X \<Rightarrow> - 1 | PLAYER_O \<Rightarrow> 1)
      else (\<lambda>p. case p of PLAYER_X \<Rightarrow> - (1 / 2) | PLAYER_O \<Rightarrow> - (1 / 2)))"

definition node_key :: "GameState \<Rightarrow> string" where
  "node_key game_state = concat (map (\<lambda>c. player_symbol (board game_state c)) coords)"

text \<open>States reachable from the starting state by sequences of legal moves.\<close>

inductive reachable :: "GameState \<Rightarrow> bool" where
  reachable_start: "reachable starting_state"
| reachable_move: "reachable s \<Longrightarrow> make_move s c = Inr s' \<Longrightarrow> reachable s'"

text \<open>Playing a list of moves from a state; the first failing move ends the game.\<close>

fun play_moves :: "GameState \<Rightarrow> coord list \<Rightarrow> error + GameState" where
  "play_moves s [] = Inr s"
| "play_moves s (c # cs) = (case make_move s c of Inl e \<Rightarrow> Inl e | Inr s' \<Rightarrow> play_moves s' cs)"

text \<open>A drawn game: X (0,0), O (1,1), X (2,2), O (0,1), X (2,1), O (2,0), X (0,2), O (1,2), X (1,0).\<close>

definition draw_moves :: "coord list" where
  "draw_moves = [(0,0), (1,1), (2,2), (0,1), (2,1), (2,0), (0,2), (1,2), (1,0)]"

definition draw_state :: GameState where
  "draw_state =
     \<lparr>board = (\<lambda>c. None)((0,0) := Some PLAYER_X, (1,1) := Some PLAYER_O, (2,2) := Some PLAYER_X,
               (0,1) := Some PLAYER_O, (2,1) := Some PLAYER_X, (2,0) := Some PLAYER_O,
               (0,2) := Some PLAYER_X, (1,2) := Some PLAYER_O, (1,0) := Some PLAYER_X),
      active_player = None\<rparr>"

text \<open>A game that X wins: X (0,0), O (0,1), X (1,0), O (1,1), X (2,0).\<close>

definition x_win_moves :: "coord list" where
  "x_win_moves = [(0,0), (0,1), (1,0), (1,1), (2,0)]"

definition x_win_state :: GameState where
  "x_win_state =
     \<lparr>board = (\<lambda>c. None)((0,0) := Some PLAYER_X, (0,1) := Some PLAYER_O, (1,0) := Some PLAYER_X,
               (1,1) := Some PLAYER_O, (2,0) := Some PLAYER_X),
      active_player = None\<rparr>"

text \<open>The number of cells a player holds, and the invariant of reachable states: the
  board is empty outside the nine cells, X has made as many moves as O or one more, and
  the active player is the one the counts give (none once the game is finished).\<close>

definition count_player :: "GameState \<Rightarrow> player \<Rightarrow> nat" where
  "count_player s p = length (filter (\<lambda>c. board s c = Some p) coords)"

definition turn_inv :: "GameState \<Rightarrow> bool" where
  "turn_inv s =
     ((\<forall>c. c \<notin> set coords \<longrightarrow> board s c = None) \<and>
      (count_player s PLAYER_X = count_player s PLAYER_O \<or>
       count_player s PLAYER_X = Suc (count_player s PLAYER_O)) \<and>
      active_player s =
        (if is_finished s then None
         else if count_player s PLAYER_X = count_player s PLAYER_O then Some PLAYER_X
         else Some PLAYER_O))"


section \<open>The search node (bobbot/search_node.py, not among the sources)\<close>

text \<open>
  The engine reaches the game through a node class that is composed with a game adapter;
  the adapter's capabilities the engine needs are the legal moves of a state, the
  successor state of a move and the canonical key of a state.
\<close>

record ('s, 'm, 'k) adapter =
  adapter_all_legal_moves :: "'s \<Rightarrow> 'm list"
  adapter_make_move :: "'s \<Rightarrow> 'm \<Rightarrow> error + 's"
  adapter_node_key :: "'s \<Rightarrow> 'k"

definition TicTacToeAdapter :: "(GameState, coord, string) adapter" where
  "TicTacToeAdapter =
     \<lparr>adapter_all_legal_moves = all_legal_moves,
      adapter_make_move = make_move,
      adapter_node_key = node_key\<rparr>"

text \<open>
  Modelled from the spec: the class SearchNode of bobbot/search_node.py is missing. The
  specification gives a node the wrapped game state, the flag \<open>is_expanded\<close> and
  \<open>successors\<close>, a mapping from legal move to the key of the resulting node, populated at
  expansion time. Scores and move selection are left out: no operation below reads them.
\<close>

record ('s, 'm, 'k) SearchNode =
  state :: 's
  is_expanded :: bool
  successors :: "('m \<times> 'k) list"

definition new_node :: "'s \<Rightarrow> ('s, 'm, 'k) SearchNode" where
  "new_node s = \<lparr>state = s, is_expanded = False, successors = []\<rparr>"

definition node_key_of :: "('s, 'm, 'k) adapter \<Rightarrow> ('s, 'm, 'k) SearchNode \<Rightarrow> 'k" where
  "node_key_of A node = adapter_node_key A (state node)"

text \<open>The successor states of a list of moves, in order; the first failing move fails all.\<close>

fun successor_states :: "('s, 'm, 'k) adapter \<Rightarrow> 's \<Rightarrow> 'm list \<Rightarrow> error + 's list" where
  "successor_states A s [] = Inr []"
| "successor_states A s (m # ms) =
     (case adapter_make_move A s m of
        Inl e \<Rightarrow> Inl e
      | Inr s' \<Rightarrow> (case successor_states A s ms of Inl e \<Rightarrow> Inl e | Inr ss \<Rightarrow> Inr (s' # ss)))"

text \<open>
  Modelled from the spec: \<open>SearchNode.expand\<close> is missing. For an unexpanded node it
  enumerates every legal move via the game adapter, computes each successor state and
  returns one freshly constructed node per successor; it fails with InvalidStateError on
  an already expanded node; afterwards \<open>is_expanded\<close> is true and \<open>successors\<close> holds the
  computed keys. The result is the node as mutated and the fresh nodes.
\<close>

definition expand ::
  "('s, 'm, 'k) adapter \<Rightarrow> ('s, 'm, 'k) SearchNode \<Rightarrow>
   error + (('s, 'm, 'k) SearchNode \<times> ('s, 'm, 'k) SearchNode list)" where
  "expand A node =
     (if is_expanded node then Inl InvalidStateError
      else
        let moves = adapter_all_legal_moves A (state node) in
        case successor_states A (state node) moves of
          Inl e \<Rightarrow> Inl e
        | Inr ss \<Rightarrow>
            Inr (node\<lparr>is_expanded := True, successors := zip moves (map (adapter_node_key A) ss)\<rparr>,
                 map new_node ss))"

text \<open>
  Modelled from the spec: \<open>SearchNode.merge\<close> is missing. The successor map becomes the
  union of the two maps; nothing else that is modelled changes.
\<close>

definition merge :: "('s, 'm, 'k) SearchNode \<Rightarrow> ('s, 'm, 'k) SearchNode \<Rightarrow> ('s, 'm, 'k) SearchNode" where
  "merge node other = node\<lparr>successors := AList.merge (successors node) (successors other)\<rparr>"

text \<open>
  Modelled from the spec: \<open>SearchNode.post_expansion_insertion\<close> is missing. It is the
  hook by which merges found during an expansion update the parent's score; the modelled
  attributes do not change.
\<close>

definition post_expansion_insertion ::
  "('s, 'm, 'k) SearchNode \<Rightarrow> 'k list \<Rightarrow> 'k list \<Rightarrow> ('s, 'm, 'k) SearchNode" where
  "post_expansion_insertion node old new = node"

text \<open>
  Modelled from the spec: \<open>SearchNode.get_successor\<close> is missing. Moves advance the
  current node along \<open>successors\<close>; committing a move that is not in the node's legal set
  fails with IllegalMoveError.
\<close>

definition get_successor :: "('s, 'm, 'k) SearchNode \<Rightarrow> 'm \<Rightarrow> error + 'k" where
  "get_successor node move =
     (case map_of (successors node) move of None \<Rightarrow> Inl IllegalMoveError | Some k \<Rightarrow> Inr k)"

text \<open>
  Modelled from the spec: \<open>SearchNode.get_successors\<close> (the successor keys, by which the
  pruning indexes the table) and \<open>SearchNode.get_successor_nodes\<close> (the successor nodes)
  are missing. A node is referred to by its key, so both are the keys of \<open>successors\<close>.
\<close>

definition get_successors :: "('s, 'm, 'k) SearchNode \<Rightarrow> 'k list" where
  "get_successors node = map snd (successors node)"

definition get_successor_nodes :: "('s, 'm, 'k) SearchNode \<Rightarrow> 'k list" where
  "get_successor_nodes node = map snd (successors node)"

section \<open>The search-tree engine (bobbot/search_tree.py)\<close>

text \<open>
  \<open>search_tree\<close> is a dict from node key to node: an association list in insertion
  order, in which \<open>AList.update\<close> stores a value as a dict assignment does.
  Every node the engine holds is an entry of the table, so a reference to a node
  (\<open>current_state\<close>, the arguments of \<open>expand_single_node\<close>, the members of the layer
  sets) is the key of that entry, and a mutation of a node is an update of its entry.
  A key without an entry is a dangling reference, which the model reports as KeyError.
\<close>

type_synonym ('s, 'm, 'k) table = "('k \<times> ('s, 'm, 'k) SearchNode) list"

record ('s, 'm, 'k) BaseAI =
  search_tree :: "('s, 'm, 'k) table"
  current_state :: 'k

definition num_states :: "('s, 'm, 'k, 'z) BaseAI_scheme \<Rightarrow> nat" where
  "num_states ai = length (search_tree ai)"

definition add_node ::
  "('s, 'm, 'k) adapter \<Rightarrow> ('s, 'm, 'k, 'z) BaseAI_scheme \<Rightarrow> ('s, 'm, 'k) SearchNode \<Rightarrow>
   ('s, 'm, 'k, 'z) BaseAI_scheme \<times> bool" where
  "add_node A ai node =
     (case map_of (search_tree ai) (node_key_of A node) of
        None \<Rightarrow> (ai\<lparr>search_tree := AList.update (node_key_of A node) node (search_tree ai)\<rparr>, True)
      | Some resident \<Rightarrow>
          (ai\<lparr>search_tree := AList.update (node_key_of A node) (merge resident node) (search_tree ai)\<rparr>,
           False))"

text \<open>\<open>BaseAI.__init__\<close>: the table holds the given node, which is the current node.\<close>

definition BaseAI_init ::
  "('s, 'm, 'k) adapter \<Rightarrow> ('s, 'm, 'k) SearchNode \<Rightarrow> ('s, 'm, 'k) BaseAI" where
  "BaseAI_init A node =
     fst (add_node A \<lparr>search_tree = [], current_state = node_key_of A node\<rparr> node)"

text \<open>The loop of \<open>expand_single_node\<close> over the fresh successors; \<open>old\<close> and \<open>new\<close> are
  dicts by node key, of which the keys are kept.\<close>

fun add_successors ::
  "('s, 'm, 'k) adapter \<Rightarrow> ('s, 'm, 'k) SearchNode list \<Rightarrow> ('s, 'm, 'k, 'z) BaseAI_scheme \<Rightarrow>
   'k list \<Rightarrow> 'k list \<Rightarrow> ('s, 'm, 'k, 'z) BaseAI_scheme \<times> 'k list \<times> 'k list" where
  "add_successors A [] ai old new = (ai, old, new)"
| "add_successors A (successor # rest) ai old new =
     (let (ai', is_new) = add_node A ai successor in
      if is_new then add_successors A rest ai' old (List.insert (node_key_of A successor) new)
      else add_successors A rest ai' (List.insert (node_key_of A successor) old) new)"

definition expand_single_node ::
  "('s, 'm, 'k) adapter \<Rightarrow> ('s, 'm, 'k, 'z) BaseAI_scheme \<Rightarrow> 'k \<Rightarrow>
   error + (('s, 'm, 'k, 'z) BaseAI_scheme \<times> bool)" where
  "expand_single_node A ai k =
     (case map_of (search_tree ai) k of
        None \<Rightarrow> Inl KeyError
      | Some node \<Rightarrow>
          (case expand A node of
             Inl e \<Rightarrow> Inl e
           | Inr (node', fresh) \<Rightarrow>
               let ai1 = ai\<lparr>search_tree := AList.update k node' (search_tree ai)\<rparr>;
                   (ai2, old, new) = add_successors A fresh ai1 [] []
               in Inr (ai2\<lparr>search_tree :=
                            AList.map_entry k (\<lambda>n. post_expansion_insertion n old new) (search_tree ai2)\<rparr>,
                       length old + length new > 0)))"

text \<open>\<open>BaseAI.make_move\<close>. A failure leaves the engine as it is at the raise, so the
  failing result carries the engine too.\<close>

definition BaseAI_make_move ::
  "('s, 'm, 'k) adapter \<Rightarrow> ('s, 'm, 'k, 'z) BaseAI_scheme \<Rightarrow> 'm \<Rightarrow>
   (error \<times> ('s, 'm, 'k, 'z) BaseAI_scheme) + ('s, 'm, 'k, 'z) BaseAI_scheme" where
  "BaseAI_make_move A ai move =
     (case map_of (search_tree ai) (current_state ai) of
        None \<Rightarrow> Inl (KeyError, ai)
      | Some cur \<Rightarrow>
          (case (if \<not> is_expanded cur
                 then map_sum id fst (expand_single_node A ai (current_state ai))
                 else Inr ai) of
             Inl e \<Rightarrow> Inl (e, ai)
           | Inr ai1 \<Rightarrow>
               (case map_of (search_tree ai1) (current_state ai1) of
                  None \<Rightarrow> Inl (KeyError, ai1)
                | Some cur1 \<Rightarrow>
                    (case get_successor cur1 move of
                       Inl e \<Rightarrow> Inl (e, ai1)
                     | Inr k \<Rightarrow> Inr (ai1\<lparr>current_state := k\<rparr>)))))"

subsection \<open>Expansion strategies\<close>

definition CurrentStateExpansion_step ::
  "('s, 'm, 'k) adapter \<Rightarrow> ('s, 'm, 'k, 'z) BaseAI_scheme \<Rightarrow>
   error + (('s, 'm, 'k, 'z) BaseAI_scheme \<times> bool)" where
  "CurrentStateExpansion_step A ai =
     (case map_of (search_tree ai) (current_state ai) of
        None \<Rightarrow> Inl KeyError
      | Some cur \<Rightarrow>
          if is_expanded cur then Inr (ai, False)
          else expand_single_node A ai (current_state ai))"

text \<open>\<open>[node for node in self.search_tree.values() if not node.is_expanded]\<close>.\<close>

definition unexpanded_nodes :: "('s, 'm, 'k, 'z) BaseAI_scheme \<Rightarrow> 'k list" where
  "unexpanded_nodes ai = map fst (filter (\<lambda>(k, node). \<not> is_expanded node) (search_tree ai))"

fun OneStepSearch_loop ::
  "('s, 'm, 'k) adapter \<Rightarrow> 'k list \<Rightarrow> ('s, 'm, 'k, 'z) BaseAI_scheme \<Rightarrow> bool \<Rightarrow>
   error + (('s, 'm, 'k, 'z) BaseAI_scheme \<times> bool)" where
  "OneStepSearch_loop A [] ai has_expanded = Inr (ai, has_expanded)"
| "OneStepSearch_loop A (node # nodes) ai has_expanded =
     (case expand_single_node A ai node of
        Inl e \<Rightarrow> Inl e
      | Inr (ai', r) \<Rightarrow> OneStepSearch_loop A nodes ai' (r \<or> has_expanded))"

definition OneStepSearch_step ::
  "('s, 'm, 'k) adapter \<Rightarrow> ('s, 'm, 'k, 'z) BaseAI_scheme \<Rightarrow>
   error + (('s, 'm, 'k, 'z) BaseAI_scheme \<times> bool)" where
  "OneStepSearch_step A ai = OneStepSearch_loop A (unexpanded_nodes ai) ai False"

subsection \<open>Expansion control\<close>

text \<open>\<open>FullExpansionMixin.expand_search_tree\<close> around the step of another mixin. The loop
  may run forever: not returning is the value \<open>None\<close>.\<close>

partial_function (option) FullExpansion_expand_search_tree ::
  "(('s, 'm, 'k, 'z) BaseAI_scheme \<Rightarrow> error + (('s, 'm, 'k, 'z) BaseAI_scheme \<times> bool)) \<Rightarrow>
   ('s, 'm, 'k, 'z) BaseAI_scheme \<Rightarrow> (error + ('s, 'm, 'k, 'z) BaseAI_scheme) option" where
  "FullExpansion_expand_search_tree step ai =
     (if list_ex (\<lambda>(k, node). \<not> is_expanded node) (search_tree ai)
      then (case step ai of
              Inl e \<Rightarrow> Some (Inl e)
            | Inr r \<Rightarrow> FullExpansion_expand_search_tree step (fst r))
      else Some (Inr ai))"

text \<open>\<open>BoundedExpansionMixin.step_search_tree_expansion\<close> around the step of the next
  class. \<open>elapsed_time\<close> is the difference of the two clock readings, in seconds.\<close>

definition BoundedExpansion_step ::
  "(('s, 'm, 'k, 'z) BaseAI_scheme \<Rightarrow> error + (('s, 'm, 'k, 'z) BaseAI_scheme \<times> bool)) \<Rightarrow>
   real \<Rightarrow> int \<Rightarrow> real \<Rightarrow> ('s, 'm, 'k, 'z) BaseAI_scheme \<Rightarrow>
   error + (('s, 'm, 'k, 'z) BaseAI_scheme \<times> bool)" where
  "BoundedExpansion_step super_step time_limit node_limit elapsed_time ai =
     (case super_step ai of
        Inl e \<Rightarrow> Inl e
      | Inr (ai', expansion_happened) \<Rightarrow>
          let limit_exceeded = False;
              limit_exceeded =
                (if node_limit \<noteq> 0 \<and> int (length (search_tree ai')) \<ge> node_limit then True
                 else limit_exceeded);
              limit_exceeded =
                (if time_limit \<noteq> 0 \<and> elapsed_time \<ge> time_limit then True else limit_exceeded)
          in Inr (ai', expansion_happened \<and> \<not> limit_exceeded))"

subsection \<open>Forward sweeping\<close>

text \<open>The attributes of \<open>ForwardSweepingMixin\<close>. The three sets of nodes are lists of keys
  without repetition, iterated in insertion order. \<open>__init__\<close> does not assign them: an
  attribute that has not been assigned yet is \<open>None\<close>, and reading it raises AttributeError.\<close>

record ('s, 'm, 'k) ForwardSweepingAI = "('s, 'm, 'k) BaseAI" +
  search_depth :: int
  current_layer_nodes :: "'k list option"
  known_nodes :: "'k list option"
  next_layer :: "'k list option"

text \<open>\<open>xs.update(ys)\<close> of a set.\<close>

definition set_update :: "'a list \<Rightarrow> 'a list \<Rightarrow> 'a list" where
  "set_update xs ys = xs @ filter (\<lambda>y. y \<notin> set xs) (remdups ys)"

text \<open>\<open>ForwardSweepingMixin.__init__\<close>: the assertion comes before the base class is
  initialised. The layer attributes are first assigned by \<open>expand_search_tree\<close>.\<close>

definition ForwardSweeping_init ::
  "('s, 'm, 'k) adapter \<Rightarrow> ('s, 'm, 'k) SearchNode \<Rightarrow> int \<Rightarrow> error + ('s, 'm, 'k) ForwardSweepingAI" where
  "ForwardSweeping_init A node depth =
     (if \<not> depth > 0 then Inl AssertionError
      else Inr (BaseAI.extend (BaseAI_init A node)
                  (ForwardSweepingAI.fields depth None None None)))"

text \<open>The body of the loop of \<open>step_search_tree_expansion\<close>, for the nodes of the current
  layer in turn. \<open>self.next_layer\<close> is read before \<open>self.known_nodes\<close>.\<close>

fun ForwardSweeping_step_loop ::
  "('s, 'm, 'k) adapter \<Rightarrow> 'k list \<Rightarrow> ('s, 'm, 'k, 'z) ForwardSweepingAI_scheme \<Rightarrow>
   error + ('s, 'm, 'k, 'z) ForwardSweepingAI_scheme" where
  "ForwardSweeping_step_loop A [] ai = Inr ai"
| "ForwardSweeping_step_loop A (node # nodes) ai =
     (case map_of (search_tree ai) node of
        None \<Rightarrow> Inl KeyError
      | Some n \<Rightarrow>
          (case (if \<not> is_expanded n then map_sum id fst (expand_single_node A ai node) else Inr ai) of
             Inl e \<Rightarrow> Inl e
           | Inr ai1 \<Rightarrow>
               (case map_of (search_tree ai1) node of
                  None \<Rightarrow> Inl KeyError
                | Some n1 \<Rightarrow>
                    let successors = get_successor_nodes n1 in
                    (case next_layer ai1 of
                       None \<Rightarrow> Inl AttributeError
                     | Some layer \<Rightarrow>
                         (case known_nodes ai1 of
                            None \<Rightarrow> Inl AttributeError
                          | Some known \<Rightarrow>
                              let ai2 = ai1\<lparr>next_layer :=
                                             Some (set_update layer
                                                     (filter (\<lambda>k. k \<notin> set known) successors))\<rparr>;
                                  ai3 = ai2\<lparr>known_nodes := Some (set_update known successors)\<rparr>
                              in ForwardSweeping_step_loop A nodes ai3)))))"

definition ForwardSweeping_step ::
  "('s, 'm, 'k) adapter \<Rightarrow> ('s, 'm, 'k, 'z) ForwardSweepingAI_scheme \<Rightarrow>
   error + (('s, 'm, 'k, 'z) ForwardSweepingAI_scheme \<times> bool)" where
  "ForwardSweeping_step A ai =
     (case current_layer_nodes ai of
        None \<Rightarrow> Inl AttributeError
      | Some nodes \<Rightarrow>
          (case ForwardSweeping_step_loop A nodes ai of
             Inl e \<Rightarrow> Inl e
           | Inr ai' \<Rightarrow>
               (case next_layer ai' of
                  None \<Rightarrow> Inl AttributeError
                | Some layer \<Rightarrow> Inr (ai', length layer > 0))))"

text \<open>The while loop of \<open>ForwardSweepingMixin.expand_search_tree\<close>; \<open>step\<close> is
  \<open>self.step_search_tree_expansion\<close>.\<close>

function ForwardSweeping_while ::
  "(('s, 'm, 'k, 'z) ForwardSweepingAI_scheme \<Rightarrow> error + (('s, 'm, 'k, 'z) ForwardSweepingAI_scheme \<times> bool)) \<Rightarrow>
   int \<Rightarrow> int \<Rightarrow> bool \<Rightarrow> ('s, 'm, 'k, 'z) ForwardSweepingAI_scheme \<Rightarrow>
   error + ('s, 'm, 'k, 'z) ForwardSweepingAI_scheme" where
  "ForwardSweeping_while step depth current_layer abort ai =
     (if current_layer < depth \<and> \<not> abort
      then (case step (ai\<lparr>next_layer := Some []\<rparr>) of
              Inl e \<Rightarrow> Inl e
            | Inr r \<Rightarrow>
                (case next_layer (fst r) of
                   None \<Rightarrow> Inl AttributeError
                 | Some layer \<Rightarrow>
                     ForwardSweeping_while step depth (current_layer + 1) (\<not> snd r)
                       ((fst r)\<lparr>current_layer_nodes := Some layer\<rparr>)))
      else Inr ai)"
  by pat_completeness auto
termination
  by (relation "measure (\<lambda>(step, depth, current_layer, abort, ai). nat (depth - current_layer))") auto

definition ForwardSweeping_expand_search_tree ::
  "(('s, 'm, 'k, 'z) ForwardSweepingAI_scheme \<Rightarrow> error + (('s, 'm, 'k, 'z) ForwardSweepingAI_scheme \<times> bool)) \<Rightarrow>
   ('s, 'm, 'k, 'z) ForwardSweepingAI_scheme \<Rightarrow> error + ('s, 'm, 'k, 'z) ForwardSweepingAI_scheme" where
  "ForwardSweeping_expand_search_tree step ai =
     ForwardSweeping_while step (search_depth ai) 0 False
       (ai\<lparr>current_layer_nodes := Some [current_state ai], known_nodes := Some [current_state ai]\<rparr>)"

subsection \<open>Pruning\<close>

text \<open>The while loop of \<open>NaivePruningMixin.make_move\<close>. \<open>frontier.pop()\<close> takes an arbitrary
  member of the set; the model takes the oldest one. The result is \<open>transitive_hull\<close>.\<close>

partial_function (option) transitive_hull_loop ::
  "('s, 'm, 'k) table \<Rightarrow> 'k list \<Rightarrow> 'k list \<Rightarrow> (error + 'k list) option" where
  "transitive_hull_loop tree transitive_hull frontier =
     (case frontier of
        [] \<Rightarrow> Some (Inr transitive_hull)
      | expansion # frontier' \<Rightarrow>
          (case map_of tree expansion of
             None \<Rightarrow> Some (Inl KeyError)
           | Some node \<Rightarrow>
               transitive_hull_loop tree (List.insert expansion transitive_hull)
                 (set_update frontier'
                    (filter (\<lambda>node_key. node_key \<notin> set (List.insert expansion transitive_hull))
                       (get_successors node)))))"

definition NaivePruning_make_move ::
  "('s, 'm, 'k) adapter \<Rightarrow> ('s, 'm, 'k, 'z) BaseAI_scheme \<Rightarrow> 'm \<Rightarrow>
   ((error \<times> ('s, 'm, 'k, 'z) BaseAI_scheme) + ('s, 'm, 'k, 'z) BaseAI_scheme) option" where
  "NaivePruning_make_move A ai move =
     (case BaseAI_make_move A ai move of
        Inl failure \<Rightarrow> Some (Inl failure)
      | Inr ai1 \<Rightarrow>
          (case transitive_hull_loop (search_tree ai1) [] [current_state ai1] of
             None \<Rightarrow> None
           | Some (Inl e) \<Rightarrow> Some (Inl (e, ai1))
           | Some (Inr transitive_hull) \<Rightarrow>
               Some (Inr (ai1\<lparr>search_tree :=
                               filter (\<lambda>(key, node). key \<in> set transitive_hull) (search_tree ai1)\<rparr>))))"

section \<open>Notions for the properties of the engine\<close>

text \<open>Appending to a table the fresh nodes of the states whose keys it does not hold yet:
  what the loop of \<open>expand_single_node\<close> does to the table.\<close>

fun insert_fresh :: "('s, 'm, 'k) adapter \<Rightarrow> ('s, 'm, 'k) table \<Rightarrow> 's list \<Rightarrow> ('s, 'm, 'k) table" where
  "insert_fresh A t [] = t"
| "insert_fresh A t (s # ss) =
     insert_fresh A (if adapter_node_key A s \<in> fst ` set t then t
                     else t @ [(adapter_node_key A s, new_node s)]) ss"

text \<open>Every successor key recorded in a resident node is a key of the table.\<close>

definition successor_closed :: "('s, 'm, 'k) table \<Rightarrow> bool" where
  "successor_closed t = (\<forall>(k, node) \<in> set t. set (get_successors node) \<subseteq> fst ` set t)"

text \<open>The successor edges between keys that a table records.\<close>

definition successor_edges :: "('s, 'm, 'k) table \<Rightarrow> ('k \<times> 'k) set" where
  "successor_edges t = {(k, k'). \<exists>node. map_of t k = Some node \<and> k' \<in> set (get_successors node)}"

text \<open>The engine that \<open>BaseAI.__init__\<close> builds for the starting state of tic-tac-toe.\<close>

definition ai0 :: "(GameState, coord, string) BaseAI" where
  "ai0 = BaseAI_init TicTacToeAdapter (new_node starting_state)"

text \<open>The exception a call raised, if any, and the engine as the call left it.\<close>

definition failure :: "(error \<times> 'a) + 'a \<Rightarrow> error option" where
  "failure r = (case r of Inl (e, ai) \<Rightarrow> Some e | Inr ai \<Rightarrow> None)"

definition engine_after :: "(error \<times> 'a) + 'a \<Rightarrow> 'a" where
  "engine_after r = (case r of Inl (e, ai) \<Rightarrow> ai | Inr ai \<Rightarrow> ai)"




text \<open>The tic-tac-toe engine after X has played (0,0), and the engine whose current node
  is a finished game that has been expanded.\<close>

definition ai_moved :: "(GameState, coord, string) BaseAI" where
  "ai_moved = engine_after (BaseAI_make_move TicTacToeAdapter ai0 (0, 0))"

definition finished_ai :: "(GameState, coord, string) BaseAI" where
  "finished_ai =
     \<lparr>search_tree = [(node_key x_win_state, (new_node x_win_state)\<lparr>is_expanded := True\<rparr>)],
      current_state = node_key x_win_state\<rparr>"


text \<open>A set of game states that the legal moves do not leave, and on which every legal
  move succeeds.\<close>

definition moves_closed :: "('s, 'm, 'k) adapter \<Rightarrow> 's set \<Rightarrow> bool" where
  "moves_closed A S =
     (\<forall>s\<in>S. \<forall>m\<in>set (adapter_all_legal_moves A s). \<exists>s'\<in>S. adapter_make_move A s m = Inr s')"

text \<open>The node as one call of \<open>expand\<close> leaves it.\<close>

definition expanded_node :: "('s, 'm, 'k) adapter \<Rightarrow> ('s, 'm, 'k) SearchNode \<Rightarrow> ('s, 'm, 'k) SearchNode" where
  "expanded_node A node = (case expand A node of Inl e \<Rightarrow> node | Inr (node', fresh) \<Rightarrow> node')"

text \<open>The keys of the resident nodes that are expanded.\<close>

definition expanded_keys :: "('s, 'm, 'k) table \<Rightarrow> 'k set" where
  "expanded_keys t = {k. \<exists>n. map_of t k = Some n \<and> is_expanded n}"

text \<open>The engine built for a finished game of tic-tac-toe.\<close>

definition ai_finished0 :: "(GameState, coord, string) BaseAI" where
  "ai_finished0 = BaseAI_init TicTacToeAdapter (new_node x_win_state)"

text \<open>The table has one entry per key, each stored under the key of its state, and the
  states are among \<open>S\<close>.\<close>

definition engine_inv :: "('s, 'm, 'k) adapter \<Rightarrow> 's set \<Rightarrow> ('s, 'm, 'k, 'z) BaseAI_scheme \<Rightarrow> bool" where
  "engine_inv A S ai =
     (distinct (map fst (search_tree ai)) \<and>
      (\<forall>(k, n)\<in>set (search_tree ai). state n \<in> S \<and> node_key_of A n = k))"


declare transitive_hull_loop.simps [code]
declare FullExpansion_expand_search_tree.simps [code]

section \<open>Properties of the adapter\<close>

lemma coords_eq: "coords = [(0,0), (0,1), (0,2), (1,0), (1,1), (1,2), (2,0), (2,1), (2,2)]"
  by (simp add: coords_def range3_def)

lemma play_moves_reachable: "reachable s \<Longrightarrow> play_moves s cs = Inr s' \<Longrightarrow> reachable s'"
proof (induction cs arbitrary: s)
  case Nil
  then show ?case by simp
next
  case (Cons c cs)
  then show ?case
    by (auto split: sum.splits intro: reachable_move)
qed

lemma filter_upd_count:
  "distinct xs \<Longrightarrow> c \<in> set xs \<Longrightarrow> b c = None \<Longrightarrow>
   length (filter (\<lambda>x. (b(c := Some p)) x = Some q) xs) =
   (if p = q then Suc (length (filter (\<lambda>x. b x = Some q) xs)) else length (filter (\<lambda>x. b x = Some q) xs))"
proof (induction xs)
  case Nil
  then show ?case by simp
next
  case (Cons x xs)
  show ?case
  proof (cases "x = c")
    case True
    with Cons.prems have "c \<notin> set xs" by simp
    then have "filter (\<lambda>x. (b(c := Some p)) x = Some q) xs = filter (\<lambda>x. b x = Some q) xs"
      by (intro filter_cong) auto
    with True Cons.prems show ?thesis by simp
  next
    case False
    with Cons show ?thesis by simp
  qed
qed

lemma distinct_coords: "distinct coords"
  by (simp add: coords_eq)

lemma in_coords_iff: "c \<in> set coords \<longleftrightarrow> (0 \<le> fst c \<and> fst c \<le> 2) \<and> (0 \<le> snd c \<and> snd c \<le> 2)"
proof -
  obtain x y where c: "c = (x, y)" by (cases c)
  have "x \<in> {0,1,2} \<longleftrightarrow> 0 \<le> x \<and> x \<le> 2" by auto
  moreover have "y \<in> {0,1,2} \<longleftrightarrow> 0 \<le> y \<and> y \<le> 2" by auto
  ultimately show ?thesis unfolding c coords_eq by auto
qed

lemma is_finished_board: "board s = board t \<Longrightarrow> is_finished s = is_finished t"
  by (simp add: is_finished_def is_winner_def)

lemma count_player_board: "board s = board t \<Longrightarrow> count_player s p = count_player t p"
  by (simp add: count_player_def)

lemma make_move_Inr:
  assumes "make_move s c = Inr s'"
  shows "c \<in> set coords" "\<not> is_finished s" "board s c = None"
    "board s' = (board s)(c := active_player s)"
    "active_player s' = (if is_finished s' then None
        else if active_player s = Some PLAYER_X then Some PLAYER_O else Some PLAYER_X)"
proof -
  from assms have leg: "is_legal_move s c = Inr True"
    by (auto simp: make_move_def split: sum.splits if_splits)
  then show "c \<in> set coords" "\<not> is_finished s" "board s c = None"
    by (auto simp: is_legal_move_def in_coords_iff split: if_splits)
  from assms leg have s': "s' = \<lparr>board = (board s)(c := active_player s),
      active_player = (if is_finished \<lparr>board = (board s)(c := active_player s), active_player = None\<rparr> then None
        else if active_player s = Some PLAYER_X then Some PLAYER_O else Some PLAYER_X)\<rparr>"
    by (simp add: make_move_def Let_def)
  then show b: "board s' = (board s)(c := active_player s)" by simp
  have "is_finished \<lparr>board = (board s)(c := active_player s), active_player = None\<rparr> = is_finished s'"
    by (rule is_finished_board) (simp add: b)
  moreover have "active_player s' =
      (if is_finished \<lparr>board = (board s)(c := active_player s), active_player = None\<rparr> then None
        else if active_player s = Some PLAYER_X then Some PLAYER_O else Some PLAYER_X)"
    by (subst s') simp
  ultimately show "active_player s' = (if is_finished s' then None
        else if active_player s = Some PLAYER_X then Some PLAYER_O else Some PLAYER_X)"
    by simp
qed

lemma turn_inv_start: "turn_inv starting_state"
  by (simp add: turn_inv_def starting_state_def count_player_def is_finished_def is_winner_def
      coords_eq range3_def)

lemma turn_inv_move:
  assumes inv: "turn_inv s" and mv: "make_move s c = Inr s'"
  shows "turn_inv s'"
proof -
  note m = make_move_Inr[OF mv]
  from inv m(2) have act: "active_player s =
     (if count_player s PLAYER_X = count_player s PLAYER_O then Some PLAYER_X else Some PLAYER_O)"
    and cnt: "count_player s PLAYER_X = count_player s PLAYER_O \<or>
       count_player s PLAYER_X = Suc (count_player s PLAYER_O)"
    and out: "\<forall>c. c \<notin> set coords \<longrightarrow> board s c = None"
    by (simp_all add: turn_inv_def)
  obtain p where p: "active_player s = Some p" using act by (auto split: if_splits)
  have cnt': "count_player s' q = (if p = q then Suc (count_player s q) else count_player s q)" for q
    unfolding count_player_def m(4) p
    using filter_upd_count[of coords c "board s" p q, OF distinct_coords m(1) m(3)] by simp
  have out': "\<forall>d. d \<notin> set coords \<longrightarrow> board s' d = None"
    using out m(1) by (auto simp: m(4))
  show ?thesis
  proof (cases "count_player s PLAYER_X = count_player s PLAYER_O")
    case True
    with act p have "p = PLAYER_X" by simp
    with True cnt' have "count_player s' PLAYER_X = Suc (count_player s' PLAYER_O)" by simp
    with out' m(5) p \<open>p = PLAYER_X\<close> show ?thesis by (simp add: turn_inv_def)
  next
    case False
    with act p have po: "p = PLAYER_O" by simp
    from False cnt have "count_player s PLAYER_X = Suc (count_player s PLAYER_O)" by simp
    with po cnt' have "count_player s' PLAYER_X = count_player s' PLAYER_O" by simp
    with out' m(5) p po show ?thesis by (simp add: turn_inv_def)
  qed
qed

lemma reachable_turn_inv: "reachable s \<Longrightarrow> turn_inv s"
  by (induction rule: reachable.induct) (auto intro: turn_inv_start turn_inv_move)

lemma player_symbol_inj: "player_symbol a = player_symbol b \<Longrightarrow> a = b"
  by (cases a rule: player_symbol.cases; cases b rule: player_symbol.cases) simp_all

lemma player_symbol_single: "\<exists>ch. player_symbol a = [ch]"
  by (cases a rule: player_symbol.cases) simp_all

lemma concat_singletons_eq:
  "(\<forall>x\<in>set xs. \<exists>ch. f x = [ch]) \<Longrightarrow> (\<forall>x\<in>set xs. \<exists>ch. g x = [ch]) \<Longrightarrow>
   concat (map f xs) = concat (map g xs) \<Longrightarrow> \<forall>x\<in>set xs. f x = g x"
  by (induction xs) auto

lemma node_key_board:
  assumes "node_key s = node_key t" and "c \<in> set coords"
  shows "board s c = board t c"
proof -
  have "\<forall>x\<in>set coords. player_symbol (board s x) = player_symbol (board t x)"
    using assms(1) unfolding node_key_def
    by (intro concat_singletons_eq) (auto simp: player_symbol_single)
  with assms(2) show ?thesis by (auto dest: player_symbol_inj)
qed


text \<open>
  Claim C1, as stated: for every terminal state the evaluation is zero-sum,
  \<open>evaluate(S)[PLAYER_X] == -evaluate(S)[PLAYER_O]\<close>. This fails at a drawn game, where
  \<open>evaluate\<close> gives \<open>-0.5\<close> to both players: the drawn position below is reached from
  the starting state by nine legal moves, is finished, and its two values are not opposite.
\<close>

theorem C1_draw_not_zero_sum:
  "play_moves starting_state draw_moves = Inr draw_state \<and> is_finished draw_state \<and>
   evaluate draw_state PLAYER_X \<noteq> - evaluate draw_state PLAYER_O"
  by (simp add: draw_moves_def draw_state_def starting_state_def make_move_def is_legal_move_def
      is_finished_def is_winner_def coords_eq range3_def Let_def evaluate_def)

text \<open>
  Claim C1, amended: for every terminal state in which a player has won, the evaluation is
  zero-sum, \<open>evaluate(S)[PLAYER_X] == -evaluate(S)[PLAYER_O]\<close>; in a terminal state
  without a winner (a draw) both players are valued \<open>-0.5\<close>.
\<close>

theorem C1_evaluate_terminal:
  "is_finished S \<Longrightarrow>
   (if is_winner S PLAYER_X \<or> is_winner S PLAYER_O
    then evaluate S PLAYER_X = - evaluate S PLAYER_O
    else evaluate S PLAYER_X = - (1 / 2) \<and> evaluate S PLAYER_O = - (1 / 2))"
  by (simp add: evaluate_def)

theorem C1_evaluate_terminal_witness:
  "is_finished x_win_state \<and> is_winner x_win_state PLAYER_X \<and>
   evaluate x_win_state PLAYER_X = - evaluate x_win_state PLAYER_O \<and>
   is_finished draw_state \<and> \<not> is_winner draw_state PLAYER_X \<and> \<not> is_winner draw_state PLAYER_O \<and>
   evaluate draw_state PLAYER_X = - (1 / 2) \<and> evaluate draw_state PLAYER_O = - (1 / 2)"
proof -
  have f: "is_finished x_win_state" and w: "is_winner x_win_state PLAYER_X"
    by (simp_all add: x_win_state_def is_finished_def is_winner_def range3_def)
  have g: "is_finished draw_state"
    and nx: "\<not> is_winner draw_state PLAYER_X" and no: "\<not> is_winner draw_state PLAYER_O"
    by (simp_all add: draw_state_def is_finished_def is_winner_def range3_def coords_eq)
  show ?thesis
    using C1_evaluate_terminal [OF f] C1_evaluate_terminal [OF g] f w g nx no by simp
qed

text \<open>
  Claim C9, as stated, has \<open>winner\<close> fail with an InvalidStateError on a state that is not
  finished. The adapter raises Python's \<open>ValueError\<close> there, which is not that exception:
  at the starting state, which is not finished, \<open>winner\<close> fails with ValueError.
\<close>

theorem C9_winner_raises_ValueError:
  "\<not> is_finished starting_state \<and> winner starting_state = Inl ValueError \<and>
   winner starting_state \<noteq> Inl InvalidStateError"
  by (simp add: winner_def starting_state_def is_finished_def is_winner_def range3_def coords_eq)

text \<open>
  Claim C9, amended: for every state on which \<open>is_finished\<close> is false, \<open>winner\<close> fails
  with a ValueError; for every finished state it returns without error the winning
  player, or none when no player has won (a draw).
\<close>

theorem C9_winner:
  "(\<not> is_finished S \<longrightarrow> winner S = Inl ValueError) \<and>
   (is_finished S \<longrightarrow>
      (\<exists>w. winner S = Inr w \<and>
         (case w of Some p \<Rightarrow> is_winner S p
                  | None \<Rightarrow> \<not> is_winner S PLAYER_X \<and> \<not> is_winner S PLAYER_O)))"
  by (auto simp: winner_def is_finished_def Let_def)

theorem C9_winner_witness:
  "\<not> is_finished starting_state \<and> winner starting_state = Inl ValueError \<and>
   is_finished x_win_state \<and> winner x_win_state = Inr (Some PLAYER_X) \<and>
   is_finished draw_state \<and> winner draw_state = Inr None"
proof -
  have a: "\<not> is_finished starting_state"
    by (simp add: starting_state_def is_finished_def is_winner_def range3_def coords_eq)
  have b: "is_finished x_win_state" and bw: "is_winner x_win_state PLAYER_X"
    by (simp_all add: x_win_state_def is_finished_def is_winner_def range3_def)
  have c: "is_finished draw_state"
    and nx: "\<not> is_winner draw_state PLAYER_X" and no: "\<not> is_winner draw_state PLAYER_O"
    by (simp_all add: draw_state_def is_finished_def is_winner_def range3_def coords_eq)
  from C9_winner [of starting_state] a have 1: "winner starting_state = Inl ValueError" by simp
  from C9_winner [of x_win_state] b obtain w where
    w: "winner x_win_state = Inr w" by blast
  with bw have 2: "winner x_win_state = Inr (Some PLAYER_X)" by (simp add: winner_def)
  from C9_winner [of draw_state] c obtain v where
    v: "winner draw_state = Inr v"
       "case v of Some p \<Rightarrow> is_winner draw_state p
                | None \<Rightarrow> \<not> is_winner draw_state PLAYER_X \<and> \<not> is_winner draw_state PLAYER_O"
    by blast
  have "v = None"
  proof (cases v)
    case None then show ?thesis .
  next
    case (Some p)
    with v(2) nx no show ?thesis by (cases p) simp_all
  qed
  with v(1) have 3: "winner draw_state = Inr None" by simp
  from a b c 1 2 3 show ?thesis by simp
qed

text \<open>
  Claim C2: for every pair of states reachable from the starting state by sequences of
  legal moves, the node keys are equal if and only if the states are equal, that is, have
  the same board and the same active player. The key encodes the nine cells only; the
  active player of a reachable state is determined by its board.
\<close>

theorem C2_node_key_canonical:
  assumes "reachable S1" and "reachable S2"
  shows "node_key S1 = node_key S2 \<longleftrightarrow> S1 = S2"
proof
  assume k: "node_key S1 = node_key S2"
  from assms have i1: "turn_inv S1" and i2: "turn_inv S2" by (auto dest: reachable_turn_inv)
  have b: "board S1 = board S2"
  proof
    fix c show "board S1 c = board S2 c"
    proof (cases "c \<in> set coords")
      case True then show ?thesis using k by (rule node_key_board[rotated])
    next
      case False
      from i1 i2 have "\<forall>c. c \<notin> set coords \<longrightarrow> board S1 c = None"
        "\<forall>c. c \<notin> set coords \<longrightarrow> board S2 c = None"
        unfolding turn_inv_def by blast+
      with False show ?thesis by metis
    qed
  qed
  have "active_player S1 = active_player S2"
    using i1 i2 is_finished_board[OF b] count_player_board[OF b]
    by (simp add: turn_inv_def)
  with b show "S1 = S2" by simp
next
  assume "S1 = S2" then show "node_key S1 = node_key S2" by simp
qed


theorem C2_node_key_canonical_witness:
  "reachable starting_state \<and> reachable draw_state \<and>
   (node_key starting_state = node_key draw_state) = (starting_state = draw_state) \<and>
   node_key starting_state \<noteq> node_key draw_state"
proof -
  have r1: "reachable starting_state" by (rule reachable_start)
  have "play_moves starting_state draw_moves = Inr draw_state"
    by (simp add: draw_moves_def draw_state_def starting_state_def make_move_def is_legal_move_def
        is_finished_def is_winner_def coords_eq range3_def Let_def)
  with r1 have r2: "reachable draw_state" by (rule play_moves_reachable)
  have "node_key starting_state \<noteq> node_key draw_state"
    by (simp add: node_key_def starting_state_def draw_state_def coords_eq)
  with r1 r2 C2_node_key_canonical [OF r1 r2] show ?thesis by simp
qed

section \<open>Properties of the engine\<close>

lemma merge_new_node: "merge r (new_node s) = r"
  by (simp add: merge_def new_node_def)

lemma update_absent: "map_of al k = None \<Longrightarrow> AList.update k v al = al @ [(k, v)]"
  by (induction al) (auto split: if_splits)

lemma map_entry_ident: "AList.map_entry k (\<lambda>n. n) al = al"
  by (induction al) auto

lemma map_of_None_iff: "map_of al k = None \<longleftrightarrow> k \<notin> fst ` set al"
  by (simp add: map_of_eq_None_iff)

lemma node_key_of_new_node [simp]: "node_key_of A (new_node s) = adapter_node_key A s"
  by (simp add: node_key_of_def new_node_def)

lemma add_node_new_node:
  "add_node A ai (new_node s) =
     (if adapter_node_key A s \<in> fst ` set (search_tree ai) then (ai, False)
      else (ai\<lparr>search_tree := search_tree ai @ [(adapter_node_key A s, new_node s)]\<rparr>, True))"
proof (cases "map_of (search_tree ai) (adapter_node_key A s)")
  case None
  then have "adapter_node_key A s \<notin> fst ` set (search_tree ai)"
    by (simp add: map_of_None_iff)
  with None show ?thesis
    by (simp add: add_node_def update_absent)
next
  case (Some r)
  then have "adapter_node_key A s \<in> fst ` set (search_tree ai)"
    by (metis map_of_None_iff option.distinct(1))
  moreover have "AList.update (adapter_node_key A s) (merge r (new_node s)) (search_tree ai) = search_tree ai"
    using Some by (simp add: merge_new_node AList.update_triv)
  ultimately show ?thesis
    using Some by (simp add: add_node_def)
qed

lemma add_successors_fresh:
  "fst (add_successors A (map new_node ss) ai old new) =
     ai\<lparr>search_tree := insert_fresh A (search_tree ai) ss\<rparr>"
proof (induction ss arbitrary: ai old new)
  case Nil
  then show ?case by simp
next
  case (Cons s ss)
  show ?case
    by (simp add: add_node_new_node Cons.IH)
qed

lemma add_successors_count:
  "add_successors A xs ai old new = (ai', old', new') \<Longrightarrow>
   (0 < length old' + length new') = (xs \<noteq> [] \<or> old \<noteq> [] \<or> new \<noteq> [])"
proof (induction xs arbitrary: ai old new)
  case Nil
  then show ?case by auto
next
  case (Cons x xs)
  obtain ai1 b where a: "add_node A ai x = (ai1, b)" by (cases "add_node A ai x")
  show ?case
  proof (cases b)
    case True
    with Cons.prems a have "add_successors A xs ai1 old (List.insert (node_key_of A x) new) = (ai', old', new')"
      by simp
    from Cons.IH[OF this] show ?thesis by (auto simp: List.insert_def)
  next
    case False
    with Cons.prems a have "add_successors A xs ai1 (List.insert (node_key_of A x) old) new = (ai', old', new')"
      by simp
    from Cons.IH[OF this] show ?thesis by (auto simp: List.insert_def)
  qed
qed

lemma successor_states_length:
  "successor_states A s ms = Inr ss \<Longrightarrow> length ss = length ms"
  by (induction ms arbitrary: ss) (auto split: sum.splits)

lemma expand_single_node_eq:
  assumes "map_of (search_tree ai) k = Some node" and "\<not> is_expanded node"
    and "successor_states A (state node) (adapter_all_legal_moves A (state node)) = Inr ss"
  shows "expand_single_node A ai k =
     Inr (ai\<lparr>search_tree :=
            insert_fresh A
              (AList.update k
                 (node\<lparr>is_expanded := True,
                       successors := zip (adapter_all_legal_moves A (state node))
                                         (map (adapter_node_key A) ss)\<rparr>)
                 (search_tree ai)) ss\<rparr>,
          ss \<noteq> [])"
proof -
  let ?node' = "node\<lparr>is_expanded := True,
      successors := zip (adapter_all_legal_moves A (state node)) (map (adapter_node_key A) ss)\<rparr>"
  let ?ai1 = "ai\<lparr>search_tree := AList.update k ?node' (search_tree ai)\<rparr>"
  have e: "expand A node = Inr (?node', map new_node ss)"
    using assms(2,3) by (simp add: expand_def)
  obtain ai2 old new where r: "add_successors A (map new_node ss) ?ai1 [] [] = (ai2, old, new)"
    by (cases "add_successors A (map new_node ss) ?ai1 [] []") auto
  have ai2: "ai2 = ?ai1\<lparr>search_tree := insert_fresh A (search_tree ?ai1) ss\<rparr>"
    using add_successors_fresh[of A ss ?ai1 "[]" "[]"] r by simp
  have cnt: "(0 < length old + length new) = (ss \<noteq> [])"
    using add_successors_count[OF r] by simp
  have "expand_single_node A ai k =
     Inr (ai2\<lparr>search_tree := AList.map_entry k (\<lambda>n. post_expansion_insertion n old new) (search_tree ai2)\<rparr>,
          0 < length old + length new)"
    using assms(1) e r by (simp add: expand_single_node_def)
  also have "(\<lambda>n. post_expansion_insertion n old new) = (\<lambda>n. n)"
    by (simp add: post_expansion_insertion_def)
  finally show ?thesis
    using cnt by (simp add: map_entry_ident ai2)
qed

lemma expand_single_node_error:
  "expand_single_node A ai k = Inl e \<Longrightarrow>
   map_of (search_tree ai) k = None \<and> e = KeyError \<or>
   (\<exists>node. map_of (search_tree ai) k = Some node \<and>
      (is_expanded node \<and> e = InvalidStateError \<or>
       \<not> is_expanded node \<and> successor_states A (state node) (adapter_all_legal_moves A (state node)) = Inl e))"
  by (auto simp: expand_single_node_def expand_def Let_def split: option.splits sum.splits prod.splits if_splits)

lemma insert_fresh_set:
  "set (insert_fresh A t ss) \<subseteq> set t \<union> (\<lambda>s. (adapter_node_key A s, new_node s)) ` set ss"
proof (induction ss arbitrary: t)
  case Nil
  then show ?case by simp
next
  case (Cons s ss)
  let ?t' = "if adapter_node_key A s \<in> fst ` set t then t else t @ [(adapter_node_key A s, new_node s)]"
  have "set (insert_fresh A t (s # ss)) = set (insert_fresh A ?t' ss)" by simp
  also have "\<dots> \<subseteq> set ?t' \<union> (\<lambda>s. (adapter_node_key A s, new_node s)) ` set ss"
    by (rule Cons.IH)
  also have "\<dots> \<subseteq> set t \<union> (\<lambda>s. (adapter_node_key A s, new_node s)) ` set (s # ss)"
    by auto
  finally show ?case .
qed

lemma insert_fresh_keys:
  "fst ` set (insert_fresh A t ss) = fst ` set t \<union> adapter_node_key A ` set ss"
proof (induction ss arbitrary: t)
  case Nil
  then show ?case by simp
next
  case (Cons s ss)
  show ?case by (simp add: Cons.IH image_Un) blast
qed

lemma insert_fresh_distinct:
  "distinct (map fst t) \<Longrightarrow> distinct (map fst (insert_fresh A t ss))"
  by (induction ss arbitrary: t) auto

lemma insert_fresh_map_of:
  "map_of (insert_fresh A t ss) x =
     (case map_of t x of
        Some n \<Rightarrow> Some n
      | None \<Rightarrow> map_option new_node (find (\<lambda>s. adapter_node_key A s = x) ss))"
proof (induction ss arbitrary: t)
  case Nil
  then show ?case by (simp split: option.splits)
next
  case (Cons s ss)
  show ?case
  proof (cases "adapter_node_key A s \<in> fst ` set t")
    case True
    then have "map_of t (adapter_node_key A s) \<noteq> None" by (simp add: map_of_None_iff)
    with True show ?thesis by (auto simp: Cons.IH split: option.splits)
  next
    case False
    then have "map_of t (adapter_node_key A s) = None" by (simp add: map_of_None_iff)
    with False show ?thesis
      by (auto simp: Cons.IH map_of_append map_add_def split: option.splits)
  qed
qed

lemma insert_fresh_length: "length t \<le> length (insert_fresh A t ss)"
proof (induction ss arbitrary: t)
  case Nil
  then show ?case by simp
next
  case (Cons s ss)
  have "length t \<le> length (if adapter_node_key A s \<in> fst ` set t then t
      else t @ [(adapter_node_key A s, new_node s)])" by simp
  also have "\<dots> \<le> length (insert_fresh A t (s # ss))"
    using Cons.IH by simp
  finally show ?case .
qed

lemma get_successors_new_node [simp]: "get_successors (new_node s) = []"
  by (simp add: get_successors_def new_node_def)

lemma is_expanded_new_node [simp]: "\<not> is_expanded (new_node s)"
  by (simp add: new_node_def)

lemma set_update_subset: "set (AList.update k v al) \<subseteq> insert (k, v) (set al)"
  by (induction al) auto

lemma successor_states_keys:
  "successor_states A s ms = Inr ss \<Longrightarrow>
   snd ` set (zip ms (map (adapter_node_key A) ss)) = adapter_node_key A ` set ss"
proof -
  assume a: "successor_states A s ms = Inr ss"
  have "map snd (zip ms (map (adapter_node_key A) ss)) = map (adapter_node_key A) ss"
    using successor_states_length[OF a] by simp
  then have "set (map snd (zip ms (map (adapter_node_key A) ss))) = set (map (adapter_node_key A) ss)"
    by simp
  then show ?thesis by simp
qed

lemma expand_single_node_Inr:
  assumes "expand_single_node A ai k = Inr (ai', b)"
  obtains node ss where "map_of (search_tree ai) k = Some node" "\<not> is_expanded node"
    "successor_states A (state node) (adapter_all_legal_moves A (state node)) = Inr ss"
    "ai' = ai\<lparr>search_tree :=
            insert_fresh A
              (AList.update k
                 (node\<lparr>is_expanded := True,
                       successors := zip (adapter_all_legal_moves A (state node))
                                         (map (adapter_node_key A) ss)\<rparr>)
                 (search_tree ai)) ss\<rparr>"
    "b = (ss \<noteq> [])"
proof -
  from assms obtain node where n: "map_of (search_tree ai) k = Some node"
    by (auto simp: expand_single_node_def split: option.splits)
  from assms n have ne: "\<not> is_expanded node"
    by (auto simp: expand_single_node_def expand_def split: if_splits)
  from assms n ne obtain ss where
    ss: "successor_states A (state node) (adapter_all_legal_moves A (state node)) = Inr ss"
    by (auto simp: expand_single_node_def expand_def Let_def split: sum.splits)
  from expand_single_node_eq[OF n ne ss] assms that[OF n ne ss] show ?thesis by simp
qed

lemma successor_closed_expand_single_node:
  assumes c: "successor_closed (search_tree ai)"
    and e: "expand_single_node A ai k = Inr (ai', b)"
  shows "successor_closed (search_tree ai')"
proof -
  from e obtain node ss where n: "map_of (search_tree ai) k = Some node"
    and ss: "successor_states A (state node) (adapter_all_legal_moves A (state node)) = Inr ss"
    and ai': "ai' = ai\<lparr>search_tree :=
            insert_fresh A
              (AList.update k
                 (node\<lparr>is_expanded := True,
                       successors := zip (adapter_all_legal_moves A (state node))
                                         (map (adapter_node_key A) ss)\<rparr>)
                 (search_tree ai)) ss\<rparr>"
    by (rule expand_single_node_Inr)
  let ?node' = "node\<lparr>is_expanded := True,
      successors := zip (adapter_all_legal_moves A (state node)) (map (adapter_node_key A) ss)\<rparr>"
  let ?t1 = "AList.update k ?node' (search_tree ai)"
  let ?t2 = "insert_fresh A ?t1 ss"
  have keys: "fst ` set ?t2 = insert k (fst ` set (search_tree ai)) \<union> adapter_node_key A ` set ss"
    by (simp add: insert_fresh_keys AList.dom_update)
  have "set (get_successors n') \<subseteq> fst ` set ?t2" if "(k', n') \<in> set ?t2" for k' n'
  proof -
    from that insert_fresh_set[of A ?t1 ss]
    consider "(k', n') \<in> set ?t1" | s where "n' = new_node s" by blast
    then show ?thesis
    proof cases
      case 1
      with set_update_subset[of k ?node' "search_tree ai"]
      consider "n' = ?node'" | "(k', n') \<in> set (search_tree ai)" by blast
      then show ?thesis
      proof cases
        case 1
        then have "set (get_successors n') = adapter_node_key A ` set ss"
          using successor_states_keys[OF ss] by (simp add: get_successors_def)
        then show ?thesis unfolding keys by blast
      next
        case 2
        with c have "set (get_successors n') \<subseteq> fst ` set (search_tree ai)"
          by (auto simp: successor_closed_def)
        then show ?thesis unfolding keys by blast
      qed
    next
      case 2
      then show ?thesis by simp
    qed
  qed
  then show ?thesis by (auto simp: successor_closed_def ai')
qed

lemma set_set_update [simp]: "set (set_update xs ys) = set xs \<union> set ys"
  by (auto simp: set_update_def)

lemma distinct_set_update: "distinct xs \<Longrightarrow> distinct (set_update xs ys)"
  by (auto simp: set_update_def)

lemma successor_edges_closed:
  "successor_closed t \<Longrightarrow> (k, k') \<in> successor_edges t \<Longrightarrow> k' \<in> fst ` set t"
  by (auto simp: successor_closed_def successor_edges_def dest!: map_of_SomeD)


lemma transitive_hull_loop_correct:
  assumes closed: "successor_closed t"
  shows "distinct F \<Longrightarrow> set F \<inter> set H = {} \<Longrightarrow>
     set F \<subseteq> fst ` set t \<Longrightarrow>
     (\<forall>h\<in>set H. successor_edges t `` {h} \<subseteq> set H \<union> set F) \<Longrightarrow>
     set H \<union> set F \<subseteq> (successor_edges t)\<^sup>* `` {c} \<Longrightarrow> c \<in> set H \<union> set F \<Longrightarrow>
     card (fst ` set t - set H) = n \<Longrightarrow>
     \<exists>H'. transitive_hull_loop t H F = Some (Inr H') \<and> set H' = (successor_edges t)\<^sup>* `` {c}"
proof (induction n arbitrary: H F rule: less_induct)
  case (less n)
  show ?case
  proof (cases F)
    case Nil
    have "(successor_edges t)\<^sup>* `` {c} \<subseteq> set H"
    proof
      fix x assume "x \<in> (successor_edges t)\<^sup>* `` {c}"
      then have "(c, x) \<in> (successor_edges t)\<^sup>*" by simp
      then show "x \<in> set H"
      proof (induction rule: rtrancl_induct)
        case base
        with less.prems(6) Nil show ?case by simp
      next
        case (step y z)
        with less.prems(4) Nil show ?case by auto
      qed
    qed
    with less.prems(5) Nil have "set H = (successor_edges t)\<^sup>* `` {c}" by auto
    with Nil show ?thesis by (subst transitive_hull_loop.simps) simp
  next
    case (Cons e F')
    from less.prems(3) Cons have "e \<in> fst ` set t" by simp
    then obtain node where node: "map_of t e = Some node"
      by (metis map_of_None_iff not_Some_eq)
    from less.prems(2) Cons have eH: "e \<notin> set H" by auto
    from less.prems(1) Cons have eF: "e \<notin> set F'" and dF: "distinct F'" by auto
    let ?H = "List.insert e H"
    let ?F = "set_update F' (filter (\<lambda>node_key. node_key \<notin> set ?H) (get_successors node))"
    have edges: "successor_edges t `` {e} = set (get_successors node)"
      using node by (auto simp: successor_edges_def)
    have fin: "finite (fst ` set t - set H)" by simp
    have "fst ` set t - set ?H = (fst ` set t - set H) - {e}" by auto
    then have "card (fst ` set t - set ?H) < card (fst ` set t - set H)"
      using \<open>e \<in> fst ` set t\<close> eH fin by (metis DiffI card_Diff1_less)
    then have m: "card (fst ` set t - set ?H) < n" using less.prems(7) by simp
    have 1: "distinct ?F" using dF by (rule distinct_set_update)
    have 2: "set ?F \<inter> set ?H = {}"
      using less.prems(2) Cons eF by auto
    have succ_in: "set (get_successors node) \<subseteq> fst ` set t"
      using closed node by (auto simp: successor_closed_def dest!: map_of_SomeD)
    have 3: "set ?F \<subseteq> fst ` set t"
      using less.prems(3) Cons succ_in by auto
    have 4: "\<forall>h\<in>set ?H. successor_edges t `` {h} \<subseteq> set ?H \<union> set ?F"
    proof
      fix h assume "h \<in> set ?H"
      then consider "h = e" | "h \<in> set H" by auto
      then show "successor_edges t `` {h} \<subseteq> set ?H \<union> set ?F"
      proof cases
        case 1
        then show ?thesis unfolding 1 edges by auto
      next
        case 2
        with less.prems(4) have "successor_edges t `` {h} \<subseteq> set H \<union> set F" by blast
        then show ?thesis using Cons by auto
      qed
    qed
    have ereach: "(c, e) \<in> (successor_edges t)\<^sup>*"
      using less.prems(5) Cons by auto
    have "set (get_successors node) \<subseteq> (successor_edges t)\<^sup>* `` {c}"
    proof
      fix x assume "x \<in> set (get_successors node)"
      then have "(e, x) \<in> successor_edges t" using edges by blast
      with ereach show "x \<in> (successor_edges t)\<^sup>* `` {c}" by auto
    qed
    then have 5: "set ?H \<union> set ?F \<subseteq> (successor_edges t)\<^sup>* `` {c}"
      using less.prems(5) Cons by auto
    have 6: "c \<in> set ?H \<union> set ?F"
      using less.prems(6) Cons by auto
    from less.IH[OF m 1 2 3 4 5 6 refl]
    obtain H' where "transitive_hull_loop t ?H ?F = Some (Inr H')"
      "set H' = (successor_edges t)\<^sup>* `` {c}" by blast
    then show ?thesis
      using Cons node by (subst transitive_hull_loop.simps) simp
  qed
qed

lemma transitive_hull_loop_start:
  assumes "successor_closed t" and "c \<in> fst ` set t"
  shows "\<exists>H'. transitive_hull_loop t [] [c] = Some (Inr H') \<and> set H' = (successor_edges t)\<^sup>* `` {c}"
  using transitive_hull_loop_correct[OF assms(1), of "[c]" "[]" c] assms(2)
  by simp

lemma expand_single_node_current:
  "expand_single_node A ai k = Inr (ai', b) \<Longrightarrow> current_state ai' = current_state ai"
  by (erule expand_single_node_Inr) simp

lemma expand_single_node_distinct:
  assumes "distinct (map fst (search_tree ai))" and "expand_single_node A ai k = Inr (ai', b)"
  shows "distinct (map fst (search_tree ai'))"
  using assms(2)
  by (rule expand_single_node_Inr) (simp add: insert_fresh_distinct AList.distinct_update assms(1))

lemma expand_single_node_keys_mono:
  assumes "expand_single_node A ai k = Inr (ai', b)"
  shows "fst ` set (search_tree ai) \<subseteq> fst ` set (search_tree ai')"
  using assms
  by (rule expand_single_node_Inr) (auto simp: insert_fresh_keys AList.dom_update)

lemma BaseAI_make_move_Inr:
  assumes "BaseAI_make_move A ai move = Inr ai'"
  obtains ai1 cur cur1 k where
    "map_of (search_tree ai) (current_state ai) = Some cur"
    "is_expanded cur \<and> ai1 = ai \<or> \<not> is_expanded cur \<and> (\<exists>b. expand_single_node A ai (current_state ai) = Inr (ai1, b))"
    "map_of (search_tree ai1) (current_state ai) = Some cur1"
    "map_of (successors cur1) move = Some k"
    "ai' = ai1\<lparr>current_state := k\<rparr>"
proof -
  from assms obtain cur where cur: "map_of (search_tree ai) (current_state ai) = Some cur"
    by (auto simp: BaseAI_make_move_def split: option.splits)
  define r where "r = (if \<not> is_expanded cur
                 then map_sum id fst (expand_single_node A ai (current_state ai))
                 else Inr ai)"
  have eq: "BaseAI_make_move A ai move =
    (case r of
       Inl e \<Rightarrow> Inl (e, ai)
     | Inr ai1 \<Rightarrow>
         (case map_of (search_tree ai1) (current_state ai1) of
            None \<Rightarrow> Inl (KeyError, ai1)
          | Some cur1 \<Rightarrow>
              (case get_successor cur1 move of
                 Inl e \<Rightarrow> Inl (e, ai1)
               | Inr k \<Rightarrow> Inr (ai1\<lparr>current_state := k\<rparr>))))"
    using cur by (simp add: BaseAI_make_move_def r_def)
  from assms eq obtain ai1 where r: "r = Inr ai1"
    by (cases r) auto
  have step: "is_expanded cur \<and> ai1 = ai \<or>
      \<not> is_expanded cur \<and> (\<exists>b. expand_single_node A ai (current_state ai) = Inr (ai1, b))"
    using r unfolding r_def
    by (cases "expand_single_node A ai (current_state ai)") (auto split: if_splits)
  then have c1: "current_state ai1 = current_state ai"
    by (auto dest: expand_single_node_current)
  from assms eq r c1 obtain cur1 where cur1: "map_of (search_tree ai1) (current_state ai) = Some cur1"
    by (cases "map_of (search_tree ai1) (current_state ai)") auto
  from assms eq r c1 cur1 obtain k where k: "get_successor cur1 move = Inr k"
    by (cases "get_successor cur1 move") auto
  then have k': "map_of (successors cur1) move = Some k"
    by (auto simp: get_successor_def split: option.splits)
  from assms eq r c1 cur1 k have "ai' = ai1\<lparr>current_state := k\<rparr>" by simp
  with cur step cur1 k' that show ?thesis by blast
qed


lemma filter_keys_dom: "fst ` set (filter (\<lambda>(key, node). key \<in> R) t) = fst ` set t \<inter> R"
  by (induction t) auto

lemma filter_keys_distinct:
  "distinct (map fst t) \<Longrightarrow> distinct (map fst (filter (\<lambda>(key, node). key \<in> R) t))"
  by (simp add: distinct_map_filter)


lemma successor_closed_filter:
  assumes d: "distinct (map fst t)" and c: "successor_closed t"
    and R: "R = (successor_edges t)\<^sup>* `` {c}"
  shows "successor_closed (filter (\<lambda>(key, node). key \<in> R) t)"
proof -
  have "k' \<in> fst ` set t \<inter> R"
    if "(k, n) \<in> set t" "k \<in> R" "k' \<in> set (get_successors n)" for k n k'
  proof -
    from d that(1) have "map_of t k = Some n" by simp
    with that(3) have e: "(k, k') \<in> successor_edges t" by (auto simp: successor_edges_def)
    with that(2) have "k' \<in> R" unfolding R by auto
    moreover from c e have "k' \<in> fst ` set t" by (rule successor_edges_closed)
    ultimately show ?thesis by simp
  qed
  then show ?thesis
    unfolding successor_closed_def filter_keys_dom by auto
qed

lemma update_values_subset: "snd ` set (AList.update k v al) \<subseteq> insert v (snd ` set al)"
  using set_update_subset[of k v al] by force

lemma merge_values_subset:
  "snd ` set (AList.merge xs ys) \<subseteq> snd ` set xs \<union> snd ` set ys"
proof (induction ys)
  case Nil
  then show ?case by simp
next
  case (Cons p ys)
  have "snd ` set (AList.merge xs (p # ys)) \<subseteq> insert (snd p) (snd ` set (AList.merge xs ys))"
    using update_values_subset[of "fst p" "snd p" "AList.merge xs ys"] by simp
  also have "\<dots> \<subseteq> insert (snd p) (snd ` set xs \<union> snd ` set ys)"
    using Cons by blast
  also have "\<dots> = snd ` set xs \<union> snd ` set (p # ys)" by simp
  finally show ?case .
qed

lemma successor_closed_add_node:
  assumes c: "successor_closed (search_tree ai)"
    and n: "set (get_successors node) \<subseteq> insert (node_key_of A node) (fst ` set (search_tree ai))"
  shows "successor_closed (search_tree (fst (add_node A ai node)))"
proof (cases "map_of (search_tree ai) (node_key_of A node)")
  case None
  let ?t = "AList.update (node_key_of A node) node (search_tree ai)"
  have t: "search_tree (fst (add_node A ai node)) = ?t"
    using None by (simp add: add_node_def)
  have "set (get_successors n') \<subseteq> fst ` set ?t" if "(k', n') \<in> set ?t" for k' n'
  proof -
    from that set_update_subset[of "node_key_of A node" node "search_tree ai"]
    consider "n' = node" | "(k', n') \<in> set (search_tree ai)" by blast
    then show ?thesis
    proof cases
      case 1
      with n show ?thesis by (simp add: AList.dom_update)
    next
      case 2
      with c have "set (get_successors n') \<subseteq> fst ` set (search_tree ai)"
        by (auto simp: successor_closed_def)
      then show ?thesis by (auto simp: AList.dom_update)
    qed
  qed
  then show ?thesis unfolding t successor_closed_def by auto
next
  case (Some r)
  let ?t = "AList.update (node_key_of A node) (merge r node) (search_tree ai)"
  have t: "search_tree (fst (add_node A ai node)) = ?t"
    using Some by (simp add: add_node_def)
  from Some have rin: "(node_key_of A node, r) \<in> set (search_tree ai)" by (rule map_of_SomeD)
  with c have rs: "set (get_successors r) \<subseteq> fst ` set (search_tree ai)"
    by (auto simp: successor_closed_def)
  have "set (get_successors (merge r node)) \<subseteq> set (get_successors r) \<union> set (get_successors node)"
    using merge_values_subset[of "successors r" "successors node"]
    by (simp add: get_successors_def merge_def)
  with rs n have ms: "set (get_successors (merge r node)) \<subseteq> fst ` set ?t"
    by (auto simp: AList.dom_update)
  have "set (get_successors n') \<subseteq> fst ` set ?t" if "(k', n') \<in> set ?t" for k' n'
  proof -
    from that set_update_subset[of "node_key_of A node" "merge r node" "search_tree ai"]
    consider "n' = merge r node" | "(k', n') \<in> set (search_tree ai)" by blast
    then show ?thesis
    proof cases
      case 1
      with ms show ?thesis by simp
    next
      case 2
      with c have "set (get_successors n') \<subseteq> fst ` set (search_tree ai)"
        by (auto simp: successor_closed_def)
      then show ?thesis by (auto simp: AList.dom_update)
    qed
  qed
  then show ?thesis unfolding t successor_closed_def by auto
qed

lemma successor_closed_init: "successor_closed (search_tree (BaseAI_init A (new_node s)))"
  by (simp add: BaseAI_init_def add_node_new_node successor_closed_def)

lemma BaseAI_make_move_inv:
  assumes d: "distinct (map fst (search_tree ai))" and c: "successor_closed (search_tree ai)"
    and m: "BaseAI_make_move A ai move = Inr ai1"
  shows "distinct (map fst (search_tree ai1))" "successor_closed (search_tree ai1)"
    "current_state ai1 \<in> fst ` set (search_tree ai1)"
    "fst ` set (search_tree ai) \<subseteq> fst ` set (search_tree ai1)"
    "\<forall>cur. map_of (search_tree ai) (current_state ai) = Some cur \<and> is_expanded cur \<longrightarrow>
       search_tree ai1 = search_tree ai"
proof -
  from m obtain ai2 cur cur1 k where
    cur: "map_of (search_tree ai) (current_state ai) = Some cur"
    and step: "is_expanded cur \<and> ai2 = ai \<or>
      \<not> is_expanded cur \<and> (\<exists>b. expand_single_node A ai (current_state ai) = Inr (ai2, b))"
    and cur1: "map_of (search_tree ai2) (current_state ai) = Some cur1"
    and k: "map_of (successors cur1) move = Some k"
    and ai1: "ai1 = ai2\<lparr>current_state := k\<rparr>"
    by (rule BaseAI_make_move_Inr)
  from step d show 1: "distinct (map fst (search_tree ai1))"
    by (auto simp: ai1 dest: expand_single_node_distinct)
  from step c show 2: "successor_closed (search_tree ai1)"
    by (auto simp: ai1 dest: successor_closed_expand_single_node)
  from k have "k \<in> set (get_successors cur1)"
    by (auto simp: get_successors_def dest!: map_of_SomeD intro: rev_image_eqI)
  moreover from cur1 have "(current_state ai, cur1) \<in> set (search_tree ai1)"
    by (auto simp: ai1 dest: map_of_SomeD)
  ultimately show "current_state ai1 \<in> fst ` set (search_tree ai1)"
    using 2 by (auto simp: successor_closed_def ai1)
  from step show "fst ` set (search_tree ai) \<subseteq> fst ` set (search_tree ai1)"
    by (auto simp: ai1 dest: expand_single_node_keys_mono)
  from step cur show "\<forall>cur. map_of (search_tree ai) (current_state ai) = Some cur \<and> is_expanded cur \<longrightarrow>
       search_tree ai1 = search_tree ai"
    by (auto simp: ai1)
qed

lemma NaivePruning_make_move_Inr:
  assumes d: "distinct (map fst (search_tree ai))" and c: "successor_closed (search_tree ai)"
    and m: "BaseAI_make_move A ai move = Inr ai1"
  shows "\<exists>H. transitive_hull_loop (search_tree ai1) [] [current_state ai1] = Some (Inr H) \<and>
     set H = (successor_edges (search_tree ai1))\<^sup>* `` {current_state ai1} \<and>
     NaivePruning_make_move A ai move =
       Some (Inr (ai1\<lparr>search_tree := filter (\<lambda>(key, node). key \<in> set H) (search_tree ai1)\<rparr>))"
proof -
  note inv = BaseAI_make_move_inv[OF d c m]
  from transitive_hull_loop_start[OF inv(2) inv(3)]
  obtain H where H: "transitive_hull_loop (search_tree ai1) [] [current_state ai1] = Some (Inr H)"
    "set H = (successor_edges (search_tree ai1))\<^sup>* `` {current_state ai1}" by blast
  with m show ?thesis by (simp add: NaivePruning_make_move_def)
qed


lemmas tictactoe_eval =
  BaseAI_make_move_def expand_single_node_def expand_def new_node_def
  TicTacToeAdapter_def all_legal_moves_def is_legal_move_def is_finished_def is_winner_def
  coords_eq range3_def make_move_def Let_def node_key_def add_node_def node_key_of_def
  post_expansion_insertion_def get_successor_def starting_state_def merge_def
  BaseAI_init_def


lemma ai0_eq: "ai0 = \<lparr>search_tree = [(''         '', new_node starting_state)], current_state = ''         ''\<rparr>"
  by (simp add: ai0_def BaseAI_init_def add_node_def node_key_of_def new_node_def TicTacToeAdapter_def
      node_key_def starting_state_def coords_eq)

lemma ai0_first_move: "BaseAI_make_move TicTacToeAdapter ai0 (0, 0) = Inr ai_moved"
proof -
  have "\<exists>x. BaseAI_make_move TicTacToeAdapter ai0 (0, 0) = Inr x"
    by (simp add: ai0_def tictactoe_eval)
  then show ?thesis by (auto simp: ai_moved_def engine_after_def)
qed


lemma finished_ai_step:
  "CurrentStateExpansion_step TicTacToeAdapter (BaseAI_init TicTacToeAdapter (new_node x_win_state)) =
     Inr (finished_ai, False)"
  by (simp add: finished_ai_def CurrentStateExpansion_step_def x_win_state_def
      expand_single_node_def expand_def new_node_def
      TicTacToeAdapter_def all_legal_moves_def is_legal_move_def is_finished_def is_winner_def
      coords_eq range3_def Let_def node_key_def add_node_def node_key_of_def
      post_expansion_insertion_def BaseAI_init_def)


text \<open>
  Claim C10: every successor key recorded in a resident node is a key of the table, after
  every engine operation. The table of a newly built engine is closed; inserting a node
  whose recorded successors are resident (or its own key) keeps the table closed, and so
  does the expansion of a node; and when a move is committed in a closed table with
  distinct keys, the reachability sweep of the pruning returns a hull (no lookup of a
  frontier key fails, and the loop ends), the pruning move returns, and the pruned table
  is closed again.
\<close>

theorem C10_successor_closure:
  "successor_closed (search_tree (BaseAI_init A (new_node s))) \<and>
   (successor_closed (search_tree ai) \<and>
    set (get_successors node) \<subseteq> insert (node_key_of A node) (fst ` set (search_tree ai)) \<longrightarrow>
      successor_closed (search_tree (fst (add_node A ai node)))) \<and>
   (successor_closed (search_tree ai) \<and> expand_single_node A ai k = Inr (ai', b) \<longrightarrow>
      successor_closed (search_tree ai')) \<and>
   (distinct (map fst (search_tree ai)) \<and> successor_closed (search_tree ai) \<and>
    BaseAI_make_move A ai move = Inr ai1 \<longrightarrow>
      (\<exists>H. transitive_hull_loop (search_tree ai1) [] [current_state ai1] = Some (Inr H)) \<and>
      (\<exists>ai2. NaivePruning_make_move A ai move = Some (Inr ai2) \<and>
         distinct (map fst (search_tree ai2)) \<and> successor_closed (search_tree ai2)))"
proof (intro conjI impI)
  show "successor_closed (search_tree (BaseAI_init A (new_node s)))"
    by (rule successor_closed_init)
next
  assume "successor_closed (search_tree ai) \<and>
    set (get_successors node) \<subseteq> insert (node_key_of A node) (fst ` set (search_tree ai))"
  then show "successor_closed (search_tree (fst (add_node A ai node)))"
    by (auto intro: successor_closed_add_node)
next
  assume "successor_closed (search_tree ai) \<and> expand_single_node A ai k = Inr (ai', b)"
  then show "successor_closed (search_tree ai')"
    by (auto intro: successor_closed_expand_single_node)
next
  assume a: "distinct (map fst (search_tree ai)) \<and> successor_closed (search_tree ai) \<and>
    BaseAI_make_move A ai move = Inr ai1"
  then have d: "distinct (map fst (search_tree ai))" and c: "successor_closed (search_tree ai)"
    and m: "BaseAI_make_move A ai move = Inr ai1" by auto
  from NaivePruning_make_move_Inr[OF d c m] obtain H where
    H: "transitive_hull_loop (search_tree ai1) [] [current_state ai1] = Some (Inr H)"
      "set H = (successor_edges (search_tree ai1))\<^sup>* `` {current_state ai1}"
      "NaivePruning_make_move A ai move =
       Some (Inr (ai1\<lparr>search_tree := filter (\<lambda>(key, node). key \<in> set H) (search_tree ai1)\<rparr>))"
    by blast
  then show "\<exists>H. transitive_hull_loop (search_tree ai1) [] [current_state ai1] = Some (Inr H)"
    by blast
  note inv = BaseAI_make_move_inv[OF d c m]
  have "successor_closed (filter (\<lambda>(key, node). key \<in> set H) (search_tree ai1))"
    using inv(1) inv(2) H(2) by (rule successor_closed_filter)
  moreover have "distinct (map fst (filter (\<lambda>(key, node). key \<in> set H) (search_tree ai1)))"
    using inv(1) by (rule filter_keys_distinct)
  ultimately show "\<exists>ai2. NaivePruning_make_move A ai move = Some (Inr ai2) \<and>
         distinct (map fst (search_tree ai2)) \<and> successor_closed (search_tree ai2)"
    using H(3) by simp
qed


theorem C10_successor_closure_witness:
  "successor_closed (search_tree ai0) \<and>
   distinct (map fst (search_tree ai0)) \<and>
   BaseAI_make_move TicTacToeAdapter ai0 (0, 0) = Inr ai_moved \<and>
   (\<exists>H. transitive_hull_loop (search_tree ai_moved) [] [current_state ai_moved] = Some (Inr H)) \<and>
   (\<exists>ai2. NaivePruning_make_move TicTacToeAdapter ai0 (0, 0) = Some (Inr ai2) \<and>
      successor_closed (search_tree ai2))"
proof -
  have d: "distinct (map fst (search_tree ai0))" by (simp add: ai0_eq)
  have c: "successor_closed (search_tree ai0)" unfolding ai0_def by (rule successor_closed_init)
  from C10_successor_closure [where A = TicTacToeAdapter and ai = ai0 and move = "(0, 0)" and ?ai1.0 = ai_moved]
    d c ai0_first_move
  show ?thesis by blast
qed











lemma successor_states_closed:
  assumes "moves_closed A S" and "s \<in> S" and "set ms \<subseteq> set (adapter_all_legal_moves A s)"
  shows "\<exists>ss. successor_states A s ms = Inr ss \<and> set ss \<subseteq> S"
  using assms(3)
proof (induction ms)
  case Nil
  then show ?case by simp
next
  case (Cons m ms)
  then obtain ss where ss: "successor_states A s ms = Inr ss" "set ss \<subseteq> S" by auto
  from Cons.prems have "m \<in> set (adapter_all_legal_moves A s)" by simp
  with assms(1,2) have "\<exists>s'\<in>S. adapter_make_move A s m = Inr s'"
    unfolding moves_closed_def by (elim ballE) auto
  then obtain s' where "s' \<in> S" "adapter_make_move A s m = Inr s'" ..
  with ss show ?case by simp
qed

lemma expand_single_node_map_of:
  assumes n: "map_of (search_tree ai) k = Some node" and ne: "\<not> is_expanded node"
    and ss: "successor_states A (state node) (adapter_all_legal_moves A (state node)) = Inr ss"
  shows "\<exists>ai1. expand_single_node A ai k = Inr (ai1, adapter_all_legal_moves A (state node) \<noteq> []) \<and>
     current_state ai1 = current_state ai \<and>
     (\<forall>x. map_of (search_tree ai1) x =
        (if x = k then Some (expanded_node A node)
         else case map_of (search_tree ai) x of
                Some n \<Rightarrow> Some n
              | None \<Rightarrow> map_option new_node (find (\<lambda>s. adapter_node_key A s = x) ss)))"
proof -
  let ?node' = "node\<lparr>is_expanded := True,
      successors := zip (adapter_all_legal_moves A (state node)) (map (adapter_node_key A) ss)\<rparr>"
  have e: "expanded_node A node = ?node'"
    using ne ss by (simp add: expanded_node_def expand_def)
  have l: "(ss \<noteq> []) = (adapter_all_legal_moves A (state node) \<noteq> [])"
    using successor_states_length[OF ss] by auto
  have "map_of (insert_fresh A (AList.update k ?node' (search_tree ai)) ss) x =
        (if x = k then Some ?node'
         else case map_of (search_tree ai) x of
                Some n \<Rightarrow> Some n
              | None \<Rightarrow> map_option new_node (find (\<lambda>s. adapter_node_key A s = x) ss))" for x
    by (simp add: insert_fresh_map_of AList.update_conv')
  then show ?thesis
    using expand_single_node_eq[OF n ne ss] by (simp add: e l)
qed

lemma state_expanded_node [simp]: "state (expanded_node A n) = state n"
  by (auto simp: expanded_node_def expand_def Let_def split: sum.splits)

lemma is_expanded_expanded_node:
  "successor_states A (state n) (adapter_all_legal_moves A (state n)) = Inr ss \<Longrightarrow>
   is_expanded (expanded_node A n)"
  by (auto simp: expanded_node_def expand_def Let_def split: sum.splits)

lemma OneStepSearch_loop_correct:
  assumes mc: "moves_closed A S"
  shows "distinct ks \<Longrightarrow>
    (\<forall>k\<in>set ks. \<exists>n. map_of (search_tree ai) k = Some n \<and> \<not> is_expanded n) \<Longrightarrow>
    (\<forall>k n. map_of (search_tree ai) k = Some n \<longrightarrow> state n \<in> S) \<Longrightarrow>
    distinct (map fst (search_tree ai)) \<Longrightarrow>
    \<exists>ai'. OneStepSearch_loop A ks ai has =
            Inr (ai', has \<or> (\<exists>k\<in>set ks. \<exists>n. map_of (search_tree ai) k = Some n \<and>
                                 adapter_all_legal_moves A (state n) \<noteq> [])) \<and>
       current_state ai' = current_state ai \<and>
       distinct (map fst (search_tree ai')) \<and>
       (\<forall>k n. map_of (search_tree ai) k = Some n \<longrightarrow>
          map_of (search_tree ai') k = Some (if k \<in> set ks then expanded_node A n else n)) \<and>
       (\<forall>k n'. map_of (search_tree ai) k = None \<longrightarrow> map_of (search_tree ai') k = Some n' \<longrightarrow>
          (\<exists>s\<in>S. n' = new_node s \<and> adapter_node_key A s = k))"
proof (induction ks arbitrary: ai has)
  case Nil
  then show ?case by simp
next
  case (Cons k ks)
  from Cons.prems(2) obtain n where n: "map_of (search_tree ai) k = Some n" and ne: "\<not> is_expanded n"
    by auto
  from Cons.prems(3) n have nS: "state n \<in> S" by blast
  from successor_states_closed[OF mc nS subset_refl]
  obtain ss where ss: "successor_states A (state n) (adapter_all_legal_moves A (state n)) = Inr ss"
    and ssS: "set ss \<subseteq> S" by blast
  from expand_single_node_map_of[OF n ne ss]
  obtain ai1 where e: "expand_single_node A ai k = Inr (ai1, adapter_all_legal_moves A (state n) \<noteq> [])"
    and c1: "current_state ai1 = current_state ai"
    and m1: "\<And>x. map_of (search_tree ai1) x =
        (if x = k then Some (expanded_node A n)
         else case map_of (search_tree ai) x of
                Some n \<Rightarrow> Some n
              | None \<Rightarrow> map_option new_node (find (\<lambda>s. adapter_node_key A s = x) ss))"
    by blast
  from Cons.prems(1) have kks: "k \<notin> set ks" and dks: "distinct ks" by auto
  have old: "map_of (search_tree ai1) x = Some (if x = k then expanded_node A m else m)"
    if "map_of (search_tree ai) x = Some m" for x m
    using that n by (auto simp: m1)
  have new: "\<exists>s\<in>S. m = new_node s \<and> adapter_node_key A s = x"
    if "map_of (search_tree ai) x = None" "map_of (search_tree ai1) x = Some m" for x m
  proof -
    from that n have "x \<noteq> k" by auto
    with that obtain s where f: "find (\<lambda>s. adapter_node_key A s = x) ss = Some s" and m: "m = new_node s"
      by (auto simp: m1)
    from f have "s \<in> set ss" "adapter_node_key A s = x"
      by (auto simp: find_Some_iff)
    with ssS m show ?thesis by auto
  qed
  have p2: "\<forall>k'\<in>set ks. \<exists>n. map_of (search_tree ai1) k' = Some n \<and> \<not> is_expanded n"
  proof
    fix k' assume k': "k' \<in> set ks"
    with Cons.prems(2) obtain n' where "map_of (search_tree ai) k' = Some n'" "\<not> is_expanded n'"
      by auto
    moreover from k' kks have "k' \<noteq> k" by auto
    ultimately show "\<exists>n. map_of (search_tree ai1) k' = Some n \<and> \<not> is_expanded n"
      using old by auto
  qed
  have p3: "\<forall>x m. map_of (search_tree ai1) x = Some m \<longrightarrow> state m \<in> S"
  proof (intro allI impI)
    fix x m assume a: "map_of (search_tree ai1) x = Some m"
    show "state m \<in> S"
    proof (cases "map_of (search_tree ai) x")
      case None
      from new[OF None a] show ?thesis by (auto simp: new_node_def)
    next
      case (Some m0)
      from old[OF Some] a have "state m = state m0" by (auto split: if_splits)
      with Cons.prems(3) Some show ?thesis by auto
    qed
  qed
  have p4: "distinct (map fst (search_tree ai1))"
    using Cons.prems(4) e by (rule expand_single_node_distinct)
  from Cons.IH[OF dks p2 p3 p4, of "adapter_all_legal_moves A (state n) \<noteq> [] \<or> has"]
  obtain ai' where
    r: "OneStepSearch_loop A ks ai1 (adapter_all_legal_moves A (state n) \<noteq> [] \<or> has) =
          Inr (ai', (adapter_all_legal_moves A (state n) \<noteq> [] \<or> has) \<or>
                    (\<exists>k\<in>set ks. \<exists>n. map_of (search_tree ai1) k = Some n \<and>
                                 adapter_all_legal_moves A (state n) \<noteq> []))"
    and c': "current_state ai' = current_state ai1"
    and d': "distinct (map fst (search_tree ai'))"
    and o': "\<And>x m. map_of (search_tree ai1) x = Some m \<Longrightarrow>
          map_of (search_tree ai') x = Some (if x \<in> set ks then expanded_node A m else m)"
    and n': "\<And>x m. map_of (search_tree ai1) x = None \<Longrightarrow> map_of (search_tree ai') x = Some m \<Longrightarrow>
          (\<exists>s\<in>S. m = new_node s \<and> adapter_node_key A s = x)"
    by blast
  have same: "map_of (search_tree ai1) k' = map_of (search_tree ai) k'" if "k' \<in> set ks" for k'
  proof -
    from that Cons.prems(2) obtain n' where "map_of (search_tree ai) k' = Some n'" by auto
    moreover from that kks have "k' \<noteq> k" by auto
    ultimately show ?thesis using old by auto
  qed
  have b: "((adapter_all_legal_moves A (state n) \<noteq> [] \<or> has) \<or>
                    (\<exists>k\<in>set ks. \<exists>n. map_of (search_tree ai1) k = Some n \<and>
                                 adapter_all_legal_moves A (state n) \<noteq> [])) =
           (has \<or> (\<exists>k'\<in>set (k # ks). \<exists>n. map_of (search_tree ai) k' = Some n \<and>
                                 adapter_all_legal_moves A (state n) \<noteq> []))"
    using n same by auto
  have 1: "OneStepSearch_loop A (k # ks) ai has =
            Inr (ai', has \<or> (\<exists>k'\<in>set (k # ks). \<exists>n. map_of (search_tree ai) k' = Some n \<and>
                                 adapter_all_legal_moves A (state n) \<noteq> []))"
    using e r unfolding b by simp
  have 2: "map_of (search_tree ai') x = Some (if x \<in> set (k # ks) then expanded_node A m else m)"
    if "map_of (search_tree ai) x = Some m" for x m
  proof (cases "x = k")
    case True
    with old[OF that] have "map_of (search_tree ai1) x = Some (expanded_node A m)" by simp
    from o'[OF this] True kks show ?thesis by simp
  next
    case False
    with old[OF that] have "map_of (search_tree ai1) x = Some m" by simp
    from o'[OF this] False show ?thesis by simp
  qed
  have 3: "\<exists>s\<in>S. m = new_node s \<and> adapter_node_key A s = x"
    if "map_of (search_tree ai) x = None" "map_of (search_tree ai') x = Some m" for x m
  proof (cases "map_of (search_tree ai1) x")
    case None
    from n'[OF None that(2)] show ?thesis .
  next
    case (Some m1)
    from that(1) Cons.prems(2) have "x \<notin> set ks" by auto
    with o'[OF Some] that(2) have "m = m1" by simp
    with new[OF that(1) Some] show ?thesis by simp
  qed
  from 1 2 3 c' c1 d' show ?case by auto
qed

lemma unexpanded_nodes_iff:
  assumes "distinct (map fst (search_tree ai))"
  shows "k \<in> set (unexpanded_nodes ai) \<longleftrightarrow> (\<exists>n. map_of (search_tree ai) k = Some n \<and> \<not> is_expanded n)"
  using assms by (auto simp: unexpanded_nodes_def intro: rev_image_eqI)

lemma distinct_unexpanded_nodes:
  "distinct (map fst (search_tree ai)) \<Longrightarrow> distinct (unexpanded_nodes ai)"
  by (simp add: unexpanded_nodes_def distinct_map_filter)

lemma OneStepSearch_step_correct:
  assumes mc: "moves_closed A S" and d: "distinct (map fst (search_tree ai))"
    and st: "\<forall>(k, n)\<in>set (search_tree ai). state n \<in> S"
  shows "\<exists>ai'. OneStepSearch_step A ai =
            Inr (ai', \<exists>(k, n)\<in>set (search_tree ai).
                        \<not> is_expanded n \<and> adapter_all_legal_moves A (state n) \<noteq> []) \<and>
       current_state ai' = current_state ai \<and>
       distinct (map fst (search_tree ai')) \<and>
       (\<forall>k n. map_of (search_tree ai) k = Some n \<longrightarrow>
          map_of (search_tree ai') k = Some (if is_expanded n then n else expanded_node A n)) \<and>
       (\<forall>k n'. map_of (search_tree ai) k = None \<longrightarrow> map_of (search_tree ai') k = Some n' \<longrightarrow>
          (\<exists>s\<in>S. n' = new_node s \<and> adapter_node_key A s = k))"
proof -
  have 1: "distinct (unexpanded_nodes ai)" using d by (rule distinct_unexpanded_nodes)
  have 2: "\<forall>k\<in>set (unexpanded_nodes ai). \<exists>n. map_of (search_tree ai) k = Some n \<and> \<not> is_expanded n"
    using unexpanded_nodes_iff[OF d] by blast
  have 3: "\<forall>k n. map_of (search_tree ai) k = Some n \<longrightarrow> state n \<in> S"
    using st by (auto dest!: map_of_SomeD)
  from OneStepSearch_loop_correct[OF mc 1 2 3 d, of False]
  obtain ai' where
    r: "OneStepSearch_loop A (unexpanded_nodes ai) ai False =
          Inr (ai', False \<or> (\<exists>k\<in>set (unexpanded_nodes ai). \<exists>n. map_of (search_tree ai) k = Some n \<and>
                                 adapter_all_legal_moves A (state n) \<noteq> []))"
    and c: "current_state ai' = current_state ai"
    and d': "distinct (map fst (search_tree ai'))"
    and o: "\<And>k n. map_of (search_tree ai) k = Some n \<Longrightarrow>
          map_of (search_tree ai') k = Some (if k \<in> set (unexpanded_nodes ai) then expanded_node A n else n)"
    and n: "\<And>k n'. map_of (search_tree ai) k = None \<Longrightarrow> map_of (search_tree ai') k = Some n' \<Longrightarrow>
          (\<exists>s\<in>S. n' = new_node s \<and> adapter_node_key A s = k)"
    by blast
  have mem: "k \<in> set (unexpanded_nodes ai) \<longleftrightarrow> \<not> is_expanded m"
    if "map_of (search_tree ai) k = Some m" for k m
    unfolding unexpanded_nodes_iff[OF d] using that by simp
  have b1: "\<exists>(k, n)\<in>set (search_tree ai). \<not> is_expanded n \<and> adapter_all_legal_moves A (state n) \<noteq> []"
    if "\<exists>k\<in>set (unexpanded_nodes ai). \<exists>n. map_of (search_tree ai) k = Some n \<and>
                                 adapter_all_legal_moves A (state n) \<noteq> []"
  proof -
    from that obtain k m where k: "k \<in> set (unexpanded_nodes ai)"
      and m: "map_of (search_tree ai) k = Some m" "adapter_all_legal_moves A (state m) \<noteq> []"
      by blast
    from k mem[OF m(1)] have "\<not> is_expanded m" by simp
    moreover from m(1) have "(k, m) \<in> set (search_tree ai)" by (rule map_of_SomeD)
    ultimately show ?thesis using m(2) by blast
  qed
  have b2: "\<exists>k\<in>set (unexpanded_nodes ai). \<exists>n. map_of (search_tree ai) k = Some n \<and>
                                 adapter_all_legal_moves A (state n) \<noteq> []"
    if "\<exists>(k, n)\<in>set (search_tree ai). \<not> is_expanded n \<and> adapter_all_legal_moves A (state n) \<noteq> []"
  proof -
    from that obtain k m where km: "(k, m) \<in> set (search_tree ai)" "\<not> is_expanded m"
      "adapter_all_legal_moves A (state m) \<noteq> []" by blast
    from km(1) d have m: "map_of (search_tree ai) k = Some m" by simp
    with mem[OF m] km(2) have "k \<in> set (unexpanded_nodes ai)" by simp
    with m km(3) show ?thesis by blast
  qed
  have b: "(False \<or> (\<exists>k\<in>set (unexpanded_nodes ai). \<exists>n. map_of (search_tree ai) k = Some n \<and>
                                 adapter_all_legal_moves A (state n) \<noteq> [])) =
        (\<exists>(k, n)\<in>set (search_tree ai). \<not> is_expanded n \<and> adapter_all_legal_moves A (state n) \<noteq> [])"
    using b1 b2 by (simp only: simp_thms) (rule iffI)
  have o2: "map_of (search_tree ai') k = Some (if is_expanded n then n else expanded_node A n)"
    if "map_of (search_tree ai) k = Some n" for k n
    using o[OF that] mem[OF that] by (cases "is_expanded n") simp_all
  from r have "OneStepSearch_step A ai =
            Inr (ai', \<exists>(k, n)\<in>set (search_tree ai).
                        \<not> is_expanded n \<and> adapter_all_legal_moves A (state n) \<noteq> [])"
    unfolding OneStepSearch_step_def b .
  with c d' o2 n show ?thesis by (intro exI[of _ ai']) simp
qed


lemma expanded_keys_subset: "expanded_keys t \<subseteq> fst ` set t"
  by (auto simp: expanded_keys_def dest!: map_of_SomeD intro: rev_image_eqI)

lemma engine_inv_keys:
  "engine_inv A S ai \<Longrightarrow> fst ` set (search_tree ai) \<subseteq> adapter_node_key A ` S"
  by (fastforce simp: engine_inv_def node_key_of_def)

lemma OneStepSearch_step_inv:
  assumes mc: "moves_closed A S" and inv: "engine_inv A S ai"
  shows "\<exists>ai' b. OneStepSearch_step A ai = Inr (ai', b) \<and> engine_inv A S ai' \<and>
     fst ` set (search_tree ai) \<subseteq> expanded_keys (search_tree ai')"
proof -
  from inv have d: "distinct (map fst (search_tree ai))"
    and st: "\<forall>(k, n)\<in>set (search_tree ai). state n \<in> S"
    and ky: "\<And>k n. (k, n) \<in> set (search_tree ai) \<Longrightarrow> node_key_of A n = k"
    by (auto simp: engine_inv_def)
  from OneStepSearch_step_correct[OF mc d st]
  obtain ai' b where r: "OneStepSearch_step A ai = Inr (ai', b)"
    and d': "distinct (map fst (search_tree ai'))"
    and o: "\<And>k n. map_of (search_tree ai) k = Some n \<Longrightarrow>
          map_of (search_tree ai') k = Some (if is_expanded n then n else expanded_node A n)"
    and n: "\<And>k n'. map_of (search_tree ai) k = None \<Longrightarrow> map_of (search_tree ai') k = Some n' \<Longrightarrow>
          (\<exists>s\<in>S. n' = new_node s \<and> adapter_node_key A s = k)"
    by blast
  have i: "state n' \<in> S \<and> node_key_of A n' = k" if "(k, n') \<in> set (search_tree ai')" for k n'
  proof -
    from that d' have m': "map_of (search_tree ai') k = Some n'" by simp
    show ?thesis
    proof (cases "map_of (search_tree ai) k")
      case None
      from n[OF None m'] show ?thesis by (auto simp: new_node_def node_key_of_def)
    next
      case (Some m)
      then have in0: "(k, m) \<in> set (search_tree ai)" by (rule map_of_SomeD)
      from o[OF Some] m' have "state n' = state m" by (auto split: if_splits)
      with st ky[OF in0] in0 show ?thesis by (auto simp: node_key_of_def)
    qed
  qed
  have e: "k \<in> expanded_keys (search_tree ai')" if "k \<in> fst ` set (search_tree ai)" for k
  proof -
    from that obtain m where in0: "(k, m) \<in> set (search_tree ai)" by auto
    with d have m: "map_of (search_tree ai) k = Some m" by simp
    from in0 st have "state m \<in> S" by auto
    from successor_states_closed[OF mc this subset_refl]
    have "is_expanded (expanded_node A m)" by (auto intro: is_expanded_expanded_node)
    with o[OF m] show ?thesis by (auto simp: expanded_keys_def)
  qed
  from r d' i e show ?thesis unfolding engine_inv_def by blast
qed

lemma FullExpansion_OneStep_terminates:
  assumes fin: "finite S" and mc: "moves_closed A S"
  shows "engine_inv A S ai \<Longrightarrow>
     card (adapter_node_key A ` S - expanded_keys (search_tree ai)) = m \<Longrightarrow>
     \<exists>ai'. FullExpansion_expand_search_tree (OneStepSearch_step A) ai = Some (Inr ai') \<and>
           (\<forall>(k, n)\<in>set (search_tree ai'). is_expanded n)"
proof (induction m arbitrary: ai rule: less_induct)
  case (less m)
  show ?case
  proof (cases "list_ex (\<lambda>(k, node). \<not> is_expanded node) (search_tree ai)")
    case False
    then have "\<forall>(k, n)\<in>set (search_tree ai). is_expanded n"
      by (auto simp: list_ex_iff)
    with False show ?thesis
      by (subst FullExpansion_expand_search_tree.simps) simp
  next
    case True
    then obtain k n where kn: "(k, n) \<in> set (search_tree ai)" "\<not> is_expanded n"
      by (auto simp: list_ex_iff)
    from less.prems(1) have d: "distinct (map fst (search_tree ai))" by (simp add: engine_inv_def)
    from kn(1) d have "map_of (search_tree ai) k = Some n" by simp
    with kn(2) have knot: "k \<notin> expanded_keys (search_tree ai)" by (simp add: expanded_keys_def)
    from OneStepSearch_step_inv[OF mc less.prems(1)]
    obtain ai1 b where r: "OneStepSearch_step A ai = Inr (ai1, b)" and inv1: "engine_inv A S ai1"
      and sub: "fst ` set (search_tree ai) \<subseteq> expanded_keys (search_tree ai1)"
      by blast
    let ?U = "adapter_node_key A ` S"
    from kn(1) sub have k1: "k \<in> expanded_keys (search_tree ai1)" by force
    from kn(1) engine_inv_keys[OF less.prems(1)] have kU: "k \<in> ?U" by force
    have "expanded_keys (search_tree ai) \<subseteq> expanded_keys (search_tree ai1)"
      using expanded_keys_subset[of "search_tree ai"] sub by blast
    with k1 knot kU have "?U - expanded_keys (search_tree ai1) \<subset> ?U - expanded_keys (search_tree ai)"
      by blast
    moreover have "finite (?U - expanded_keys (search_tree ai))" using fin by simp
    ultimately have "card (?U - expanded_keys (search_tree ai1)) < m"
      using less.prems(2) by (metis psubset_card_mono)
    from less.IH[OF this inv1 refl]
    obtain ai' where "FullExpansion_expand_search_tree (OneStepSearch_step A) ai1 = Some (Inr ai')"
      "\<forall>(k, n)\<in>set (search_tree ai'). is_expanded n" by blast
    with True r show ?thesis
      by (subst FullExpansion_expand_search_tree.simps) simp
  qed
qed


lemma FullExpansion_not_stuck:
  assumes "FullExpansion_expand_search_tree step ai = Some y"
  shows "\<not> ((\<exists>b. step ai = Inr (ai, b)) \<and>
            list_ex (\<lambda>(k, node). \<not> is_expanded node) (search_tree ai))"
proof (rule FullExpansion_expand_search_tree.raw_induct
    [where P = "\<lambda>s a r. \<not> ((\<exists>b. s a = Inr (a, b)) \<and>
            list_ex (\<lambda>(k, node). \<not> is_expanded node) (search_tree a))"
       and step = step and ai = ai and y = y])
  show "FullExpansion_expand_search_tree step ai = Some y" by (rule assms)
next
  fix f :: "(('a, 'b, 'c, 'd) BaseAI_scheme \<Rightarrow> error + ('a, 'b, 'c, 'd) BaseAI_scheme \<times> bool) \<Rightarrow>
      ('a, 'b, 'c, 'd) BaseAI_scheme \<Rightarrow> (error + ('a, 'b, 'c, 'd) BaseAI_scheme) option"
  fix s a r
  assume IH: "\<And>s a r. f s a = Some r \<Longrightarrow>
      \<not> ((\<exists>b. s a = Inr (a, b)) \<and> list_ex (\<lambda>(k, node). \<not> is_expanded node) (search_tree a))"
  assume eq: "(if list_ex (\<lambda>(k, node). \<not> is_expanded node) (search_tree a)
      then case s a of Inl e \<Rightarrow> Some (Inl e) | Inr r \<Rightarrow> f s (fst r)
      else Some (Inr a)) = Some r"
  show "\<not> ((\<exists>b. s a = Inr (a, b)) \<and> list_ex (\<lambda>(k, node). \<not> is_expanded node) (search_tree a))"
  proof
    assume st: "(\<exists>b. s a = Inr (a, b)) \<and> list_ex (\<lambda>(k, node). \<not> is_expanded node) (search_tree a)"
    then obtain b where "s a = Inr (a, b)" by blast
    with st eq have "f s a = Some r" by simp
    from IH[OF this] st show False by blast
  qed
qed

lemma FullExpansion_stuck:
  assumes "step ai = Inr (ai, b)" and "list_ex (\<lambda>(k, node). \<not> is_expanded node) (search_tree ai)"
  shows "FullExpansion_expand_search_tree step ai = None"
proof (cases "FullExpansion_expand_search_tree step ai")
  case None
  then show ?thesis .
next
  case (Some y)
  from FullExpansion_not_stuck[OF Some] assms show ?thesis by blast
qed

lemma node_key_inj_reachable:
  assumes "reachable S1" and "reachable S2" and k: "node_key S1 = node_key S2"
  shows "S1 = S2"
proof -
  from assms have i1: "turn_inv S1" and i2: "turn_inv S2" by (auto dest: reachable_turn_inv)
  have b: "board S1 = board S2"
  proof
    fix c show "board S1 c = board S2 c"
    proof (cases "c \<in> set coords")
      case True then show ?thesis using k by (rule node_key_board[rotated])
    next
      case False
      from i1 i2 have "\<forall>c. c \<notin> set coords \<longrightarrow> board S1 c = None"
        "\<forall>c. c \<notin> set coords \<longrightarrow> board S2 c = None"
        unfolding turn_inv_def by blast+
      with False show ?thesis by metis
    qed
  qed
  have "active_player S1 = active_player S2"
    using i1 i2 is_finished_board[OF b] count_player_board[OF b]
    by (simp add: turn_inv_def)
  with b show "S1 = S2" by simp
qed

lemma node_key_range:
  "node_key s \<in> {xs. set xs \<subseteq> {CHR ''X'', CHR ''O'', CHR '' ''} \<and> length xs = 9}"
proof -
  have "player_symbol a \<in> {''X'', ''O'', '' ''}" for a
    by (cases a rule: player_symbol.cases) simp_all
  then have "\<exists>ch \<in> {CHR ''X'', CHR ''O'', CHR '' ''}. player_symbol a = [ch]" for a
    by (cases a rule: player_symbol.cases) simp_all
  then obtain f where f: "\<And>a. f a \<in> {CHR ''X'', CHR ''O'', CHR '' ''} \<and> player_symbol a = [f a]"
    by metis
  have "node_key s = map (\<lambda>c. f (board s c)) coords"
    by (simp add: node_key_def coords_eq f)
  moreover have "set (map (\<lambda>c. f (board s c)) coords) \<subseteq> {CHR ''X'', CHR ''O'', CHR '' ''}"
    using f by auto
  moreover have "length (map (\<lambda>c. f (board s c)) coords) = 9" by (simp add: coords_eq)
  ultimately show ?thesis by simp
qed

lemma finite_reachable: "finite {s. reachable s}"
proof -
  have "finite {xs. set xs \<subseteq> {CHR ''X'', CHR ''O'', CHR '' ''} \<and> length xs = 9}"
    by (rule finite_lists_length_eq) simp
  moreover have "node_key ` {s. reachable s} \<subseteq>
      {xs. set xs \<subseteq> {CHR ''X'', CHR ''O'', CHR '' ''} \<and> length xs = 9}"
    using node_key_range by blast
  ultimately have "finite (node_key ` {s. reachable s})" by (rule rev_finite_subset)
  moreover have "inj_on node_key {s. reachable s}"
    by (auto intro!: inj_onI node_key_inj_reachable)
  ultimately show ?thesis by (rule finite_imageD)
qed

lemma moves_closed_tictactoe: "moves_closed TicTacToeAdapter {s. reachable s}"
proof -
  have "\<exists>s'. reachable s' \<and> make_move s m = Inr s'"
    if "reachable s" "m \<in> set (all_legal_moves s)" for s m
  proof -
    from that(2) have "is_legal_move s m = Inr True" by (simp add: all_legal_moves_def)
    then obtain s' where s': "make_move s m = Inr s'" by (simp add: make_move_def Let_def)
    with that(1) have "reachable s'" by (rule reachable_move)
    with s' show ?thesis by blast
  qed
  then show ?thesis by (auto simp: moves_closed_def TicTacToeAdapter_def)
qed

lemma node_key_starting_state: "node_key starting_state = ''         ''"
  by (simp add: node_key_def starting_state_def coords_eq)

lemma ai0_inv:
  "distinct (map fst (search_tree ai0))"
  "\<forall>(k, n)\<in>set (search_tree ai0). state n \<in> {s. reachable s} \<and> node_key_of TicTacToeAdapter n = k"
  by (simp_all add: ai0_eq new_node_def node_key_of_def TicTacToeAdapter_def reachable_start
      node_key_starting_state)


text \<open>
  Claim C5: for every configured node limit \<open>n > 0\<close>, when the inner step returns, the
  bounded step returns (it raises nothing of its own) with the engine exactly as the inner
  step left it, whatever its size, and with the value true if and only if the inner step
  reported that work happened and no budget is exceeded after it: the table size is below
  \<open>n\<close>, and the time limit is \<open>0\<close> (unlimited) or above the elapsed time. So once the table
  size is at least \<open>n\<close> the step reports false even where the inner step reported true; the
  witness is a step of One-Step-All that takes the table from 1 to 10 nodes under the limit
  2.
\<close>

theorem C5_bounded_step:
  assumes "0 < node_limit" and "super_step ai = Inr (ai', expansion_happened)"
  shows "BoundedExpansion_step super_step time_limit node_limit elapsed_time ai =
           Inr (ai', expansion_happened \<and>
                     \<not> (node_limit \<le> int (num_states ai') \<or>
                        (time_limit \<noteq> 0 \<and> time_limit \<le> elapsed_time)))"
  using assms by (simp add: BoundedExpansion_step_def num_states_def)


theorem C5_bounded_step_witness:
  "(0::int) < 2 \<and>
   (\<exists>ai'. OneStepSearch_step TicTacToeAdapter ai0 = Inr (ai', True) \<and>
      num_states ai' = 10 \<and>
      BoundedExpansion_step (OneStepSearch_step TicTacToeAdapter) 0 2 0 ai0 = Inr (ai', False))"
proof -
  have "\<exists>ai'. OneStepSearch_step TicTacToeAdapter ai0 = Inr (ai', True) \<and> num_states ai' = 10"
    by (simp add: ai0_def OneStepSearch_step_def unexpanded_nodes_def num_states_def tictactoe_eval)
  then obtain ai' where s: "OneStepSearch_step TicTacToeAdapter ai0 = Inr (ai', True)"
    and n: "num_states ai' = 10" by blast
  have l: "(0::int) < 2" by simp
  from C5_bounded_step [where node_limit = 2 and super_step = "OneStepSearch_step TicTacToeAdapter"
      and ai = ai0 and ai' = ai' and expansion_happened = True and time_limit = 0
      and elapsed_time = 0, OF l s] s n
  show ?thesis by auto
qed

text \<open>
  Claim C7, as stated, has the step return true if and only if at least one node was
  expanded during the call. This fails where the only unexpanded nodes are finished
  games: the engine built for a finished game holds one unexpanded node, the step expands
  it (no unexpanded node is left) and returns false, since \<open>expand_single_node\<close> reports
  whether the node has successors.
\<close>

theorem C7_return_value_false:
  "unexpanded_nodes ai_finished0 = [node_key x_win_state] \<and>
   OneStepSearch_step TicTacToeAdapter ai_finished0 = Inr (finished_ai, False) \<and>
   unexpanded_nodes finished_ai = []"
  by (simp add: ai_finished0_def finished_ai_def OneStepSearch_step_def unexpanded_nodes_def
      x_win_state_def expand_single_node_def expand_def new_node_def
      TicTacToeAdapter_def all_legal_moves_def is_legal_move_def is_finished_def is_winner_def
      coords_eq range3_def Let_def node_key_def add_node_def node_key_of_def
      post_expansion_insertion_def BaseAI_init_def)


text \<open>
  Claim C7, amended: for a game whose legal moves succeed, one call of the One-Step-All
  step returns and leaves each node that was unexpanded in the table at the start of the
  call as one call of \<open>expand\<close> leaves it (expanded exactly once), leaves the nodes that were
  already expanded as they were, and leaves every node newly added during the call
  unexpanded, without successors; its return value is true if and only if at least one of
  the nodes that were unexpanded at the start has a legal move.
\<close>

theorem C7_one_step_all:
  assumes "moves_closed A S" and "distinct (map fst (search_tree ai))"
    and "\<forall>(k, n)\<in>set (search_tree ai). state n \<in> S"
  shows "\<exists>ai'. OneStepSearch_step A ai =
            Inr (ai', \<exists>(k, n)\<in>set (search_tree ai).
                        \<not> is_expanded n \<and> adapter_all_legal_moves A (state n) \<noteq> []) \<and>
       (\<forall>(k, n)\<in>set (search_tree ai).
          map_of (search_tree ai') k = Some (if is_expanded n then n else expanded_node A n) \<and>
          is_expanded (if is_expanded n then n else expanded_node A n)) \<and>
       (\<forall>(k, n')\<in>set (search_tree ai').
          k \<notin> fst ` set (search_tree ai) \<longrightarrow> \<not> is_expanded n' \<and> successors n' = [])"
proof -
  from OneStepSearch_step_correct[OF assms]
  obtain ai' where
    r: "OneStepSearch_step A ai =
            Inr (ai', \<exists>(k, n)\<in>set (search_tree ai).
                        \<not> is_expanded n \<and> adapter_all_legal_moves A (state n) \<noteq> [])"
    and d': "distinct (map fst (search_tree ai'))"
    and o: "\<And>k n. map_of (search_tree ai) k = Some n \<Longrightarrow>
          map_of (search_tree ai') k = Some (if is_expanded n then n else expanded_node A n)"
    and n: "\<And>k n'. map_of (search_tree ai) k = None \<Longrightarrow> map_of (search_tree ai') k = Some n' \<Longrightarrow>
          (\<exists>s\<in>S. n' = new_node s \<and> adapter_node_key A s = k)"
    by blast
  have 1: "map_of (search_tree ai') k = Some (if is_expanded n then n else expanded_node A n) \<and>
          is_expanded (if is_expanded n then n else expanded_node A n)"
    if "(k, n) \<in> set (search_tree ai)" for k n
  proof -
    from that assms(2) have m: "map_of (search_tree ai) k = Some n" by simp
    from that assms(3) have "state n \<in> S" by auto
    from successor_states_closed[OF assms(1) this subset_refl]
    have "is_expanded (expanded_node A n)" by (auto intro: is_expanded_expanded_node)
    with o[OF m] show ?thesis by simp
  qed
  have 2: "\<not> is_expanded n' \<and> successors n' = []"
    if "(k, n') \<in> set (search_tree ai')" "k \<notin> fst ` set (search_tree ai)" for k n'
  proof -
    from that(1) d' have "map_of (search_tree ai') k = Some n'" by simp
    moreover from that(2) have "map_of (search_tree ai) k = None" by (simp add: map_of_None_iff)
    ultimately obtain s where "n' = new_node s" using n by blast
    then show ?thesis by (simp add: new_node_def)
  qed
  from r 1 2 show ?thesis by blast
qed

theorem C7_one_step_all_witness:
  "moves_closed TicTacToeAdapter {s. reachable s} \<and> distinct (map fst (search_tree ai0)) \<and>
   (\<exists>ai'. OneStepSearch_step TicTacToeAdapter ai0 = Inr (ai', True) \<and>
      map_of (search_tree ai') (node_key starting_state) =
        Some (expanded_node TicTacToeAdapter (new_node starting_state)) \<and>
      is_expanded (expanded_node TicTacToeAdapter (new_node starting_state)))"
proof -
  have st: "\<forall>(k, n)\<in>set (search_tree ai0). state n \<in> {s. reachable s}"
    using ai0_inv(2) by auto
  have b: "(\<exists>(k, n)\<in>set (search_tree ai0).
      \<not> is_expanded n \<and> adapter_all_legal_moves TicTacToeAdapter (state n) \<noteq> []) = True"
    by (simp add: ai0_eq new_node_def TicTacToeAdapter_def all_legal_moves_def is_legal_move_def
        is_finished_def is_winner_def coords_eq range3_def starting_state_def)
  have k: "(node_key starting_state, new_node starting_state) \<in> set (search_tree ai0)"
    by (simp add: ai0_eq node_key_starting_state)
  from C7_one_step_all [OF moves_closed_tictactoe ai0_inv(1) st] obtain ai' where
    r: "OneStepSearch_step TicTacToeAdapter ai0 =
          Inr (ai', \<exists>(k, n)\<in>set (search_tree ai0).
                \<not> is_expanded n \<and> adapter_all_legal_moves TicTacToeAdapter (state n) \<noteq> [])"
    and o: "\<forall>(k, n)\<in>set (search_tree ai0).
          map_of (search_tree ai') k = Some (if is_expanded n then n else expanded_node TicTacToeAdapter n) \<and>
          is_expanded (if is_expanded n then n else expanded_node TicTacToeAdapter n)"
    by blast
  from o k have "map_of (search_tree ai') (node_key starting_state) =
        Some (expanded_node TicTacToeAdapter (new_node starting_state)) \<and>
      is_expanded (expanded_node TicTacToeAdapter (new_node starting_state))"
    by fastforce
  with r b moves_closed_tictactoe ai0_inv(1) show ?thesis by auto
qed


text \<open>
  Claim C8, as stated, has \<open>expand_search_tree\<close> of the Full expansion control terminate
  for tic-tac-toe whatever the inner step is. Over the Single-Current step it does not
  return from the starting engine: the first step expands the current node, after which
  the nine new nodes stay unexpanded and every further step does nothing.
\<close>

theorem C8_full_expansion_diverges:
  "FullExpansion_expand_search_tree (CurrentStateExpansion_step TicTacToeAdapter) ai0 = None"
proof -
  have "\<exists>ai. CurrentStateExpansion_step TicTacToeAdapter ai0 = Inr (ai, True) \<and>
      CurrentStateExpansion_step TicTacToeAdapter ai = Inr (ai, False) \<and>
      list_ex (\<lambda>(k, node). \<not> is_expanded node) (search_tree ai)"
    by (simp add: ai0_def CurrentStateExpansion_step_def tictactoe_eval)
  then obtain ai where 1: "CurrentStateExpansion_step TicTacToeAdapter ai0 = Inr (ai, True)"
    and 2: "CurrentStateExpansion_step TicTacToeAdapter ai = Inr (ai, False)"
    and 3: "list_ex (\<lambda>(k, node). \<not> is_expanded node) (search_tree ai)" by blast
  have "list_ex (\<lambda>(k, node). \<not> is_expanded node) (search_tree ai0)"
    by (simp add: ai0_eq new_node_def)
  then have "FullExpansion_expand_search_tree (CurrentStateExpansion_step TicTacToeAdapter) ai0 =
        FullExpansion_expand_search_tree (CurrentStateExpansion_step TicTacToeAdapter) ai"
    using 1 by (subst FullExpansion_expand_search_tree.simps) simp
  also have "\<dots> = None" using 2 3 by (rule FullExpansion_stuck)
  finally show ?thesis .
qed


text \<open>
  Claim C8, amended: for a game with finitely many reachable states (a finite set of
  states that holds the states of the table and that the legal moves do not leave), the
  Full expansion control over the One-Step-All step terminates, and when it returns every
  node resident in the table is expanded.
\<close>

theorem C8_full_expansion_terminates:
  assumes "finite S" and "moves_closed A S" and "distinct (map fst (search_tree ai))"
    and "\<forall>(k, n)\<in>set (search_tree ai). state n \<in> S \<and> node_key_of A n = k"
  shows "\<exists>ai'. FullExpansion_expand_search_tree (OneStepSearch_step A) ai = Some (Inr ai') \<and>
           (\<forall>(k, n)\<in>set (search_tree ai'). is_expanded n)"
proof -
  from assms(3,4) have "engine_inv A S ai" by (simp add: engine_inv_def)
  from FullExpansion_OneStep_terminates[OF assms(1,2) this refl] show ?thesis .
qed


theorem C8_full_expansion_terminates_witness:
  "finite {s. reachable s} \<and> moves_closed TicTacToeAdapter {s. reachable s} \<and>
   distinct (map fst (search_tree ai0)) \<and>
   (\<exists>ai'. FullExpansion_expand_search_tree (OneStepSearch_step TicTacToeAdapter) ai0 = Some (Inr ai') \<and>
           (\<forall>(k, n)\<in>set (search_tree ai'). is_expanded n))"
  using C8_full_expansion_terminates [OF finite_reachable moves_closed_tictactoe ai0_inv]
    finite_reachable moves_closed_tictactoe ai0_inv(1) by blast



end
